theory Spec2Isabelle
  imports Main "HOL-Library.Word"
begin

unbundle bit_operations_syntax

section \<open>Data model\<close>

text \<open>
  Go's \<open>int\<close> is a 64-bit two's-complement integer on the platforms the package is
  built for: \<open>+\<close> and \<open>-\<close> wrap, and \<open><\<close>, \<open>>=\<close> compare the signed values
  (\<open><s\<close> and \<open>\<le>s\<close> on words). \<open>byte\<close> is an 8-bit word, tcell's \<open>ButtonMask\<close> a
  16-bit one.

  Windows, desktops and client primitives are heap objects reached through pointers; the
  model keeps one store per kind, indexed by a reference, so that the aliasing between a
  desktop's stack and the windows' back-references is the one of the code. A reference
  is never nil; an optional pointer is an \<open>option\<close>.
\<close>

type_synonym go_int = "64 word"
type_synonym win_ref = nat
type_synonym desk_ref = nat
type_synonym prim_ref = nat
type_synonym rect = "go_int \<times> go_int \<times> go_int \<times> go_int"

datatype WindowState = Restored | Minimized | Maximized

text \<open>The mouse actions of tview, and the part of a tcell mouse event that is read.\<close>

datatype MouseAction =
    MouseMove
  | MouseLeftDown | MouseLeftUp | MouseLeftClick | MouseLeftDoubleClick
  | MouseMiddleDown | MouseMiddleUp | MouseMiddleClick | MouseMiddleDoubleClick
  | MouseRightDown | MouseRightUp | MouseRightClick | MouseRightDoubleClick
  | MouseScrollUp | MouseScrollDown | MouseScrollLeft | MouseScrollRight

record EventMouse =
  atX :: go_int
  atY :: go_int
  buttons :: "16 word"

definition Button1 :: "16 word" where
  "Button1 = 1"

datatype Primitive = PWindow win_ref | PClient prim_ref

text \<open>
  \<open>tview.Box\<close> is the library type every window and desktop embeds. The code uses its
  rectangle, its border flag and its focus flag: \<open>SetRect\<close> stores the rectangle as
  given, \<open>GetRect\<close> returns it, \<open>InRect\<close> tests a point against it, and
  \<open>GetInnerRect\<close> is the rectangle without the border cells, never of negative size.
  The boxes here have no padding and no input or mouse capture function installed, so
  that \<open>WrapMouseHandler\<close> hands an event to the wrapped handler as it is; the inner
  rectangle is computed from the fields at each call.
\<close>

record Box =
  box_x :: go_int
  box_y :: go_int
  box_width :: go_int
  box_height :: go_int
  box_border :: bool
  box_hasFocus :: bool

definition Box_SetRect :: "go_int \<Rightarrow> go_int \<Rightarrow> go_int \<Rightarrow> go_int \<Rightarrow> Box \<Rightarrow> Box" where
  "Box_SetRect x y width height b =
     b\<lparr>box_x := x, box_y := y, box_width := width, box_height := height\<rparr>"

definition Box_GetRect :: "Box \<Rightarrow> rect" where
  "Box_GetRect b = (box_x b, box_y b, box_width b, box_height b)"

definition Box_SetBorder :: "bool \<Rightarrow> Box \<Rightarrow> Box" where
  "Box_SetBorder show b = b\<lparr>box_border := show\<rparr>"

definition Box_GetInnerRect :: "Box \<Rightarrow> rect" where
  "Box_GetInnerRect b =
     (let x = (if box_border b then box_x b + 1 else box_x b);
          y = (if box_border b then box_y b + 1 else box_y b);
          width = (if box_border b then box_width b - 2 else box_width b);
          height = (if box_border b then box_height b - 2 else box_height b)
      in (x, y, if width <s 0 then 0 else width, if height <s 0 then 0 else height))"

definition Box_InRect :: "Box \<Rightarrow> go_int \<Rightarrow> go_int \<Rightarrow> bool" where
  "Box_InRect b x y \<longleftrightarrow>
     box_x b \<le>s x \<and> x <s box_x b + box_width b \<and> box_y b \<le>s y \<and> y <s box_y b + box_height b"

text \<open>
  A client is an opaque \<open>tview.Primitive\<close>. The model keeps what the windowing layer
  reads and writes: its rectangle, whether it holds the focus, and its mouse handler (nil,
  or a verdict \<open>(consumed, capture)\<close> for an action and an event).
\<close>

record Client =
  c_rect :: rect
  c_hasFocus :: bool
  c_MouseHandler :: "(MouseAction \<Rightarrow> EventMouse \<Rightarrow> bool \<times> Primitive option) option"

text \<open>The \<open>Window\<close> struct of window.go, field by field.\<close>

record Window =
  box :: Box
  desktop :: "desk_ref option"
  client :: "prim_ref option"
  title :: string
  moveX :: go_int
  moveY :: go_int
  rx :: go_int
  ry :: go_int
  rw :: go_int
  rh :: go_int
  state :: WindowState
  clientFullSize :: bool
  border :: bool
  noCaption :: bool
  autoActivate :: bool
  moving :: bool
  autoPosition :: bool
  resizable :: bool
  resizing :: "8 word"

text \<open>
  The \<open>Desktop\<close> struct. Its \<open>winMgr\<close> field is not a field of the model: every desktop
  here runs the default manager (\<open>DefaultWindowManager\<close>), whose methods are the
  \<open>winMgr_\<close> functions below.
\<close>

record Desktop =
  d_box :: Box
  wins :: "win_ref list"
  d_client :: "prim_ref option"
  autoWinPos :: go_int
  init :: bool
  d_clientFullSize :: bool

text \<open>
  The hooks of the default manager have empty bodies, and \<open>setFocus\<close> is a callback of
  the application. So that a call of one of them can be observed, the world keeps the
  list of these calls, oldest first.
\<close>

datatype call =
    Added win_ref | Removed win_ref | Resized win_ref | TitleChanged win_ref
  | SetFocus Primitive

record world =
  windows :: "win_ref \<Rightarrow> Window"
  desktops :: "desk_ref \<Rightarrow> Desktop"
  clients :: "prim_ref \<Rightarrow> Client"
  calls :: "call list"

definition upd_win :: "win_ref \<Rightarrow> (Window \<Rightarrow> Window) \<Rightarrow> world \<Rightarrow> world" where
  "upd_win win f s = s\<lparr>windows := (windows s)(win := f (windows s win))\<rparr>"

definition upd_desk :: "desk_ref \<Rightarrow> (Desktop \<Rightarrow> Desktop) \<Rightarrow> world \<Rightarrow> world" where
  "upd_desk d f s = s\<lparr>desktops := (desktops s)(d := f (desktops s d))\<rparr>"

definition Primitive_SetRect :: "prim_ref \<Rightarrow> rect \<Rightarrow> world \<Rightarrow> world" where
  "Primitive_SetRect p r s = s\<lparr>clients := (clients s)(p := (clients s p)\<lparr>c_rect := r\<rparr>)\<rparr>"

definition called :: "call \<Rightarrow> world \<Rightarrow> world" where
  "called c s = s\<lparr>calls := calls s @ [c]\<rparr>"

section \<open>The default manager's hooks\<close>

definition winMgr_Added :: "win_ref \<Rightarrow> world \<Rightarrow> world" where
  "winMgr_Added win s = called (Added win) s"

definition winMgr_Removed :: "win_ref \<Rightarrow> world \<Rightarrow> world" where
  "winMgr_Removed win s = called (Removed win) s"

definition winMgr_Resized :: "win_ref \<Rightarrow> world \<Rightarrow> world" where
  "winMgr_Resized win s = called (Resized win) s"

section \<open>Window geometry and state\<close>

text \<open>
  The tail shared by \<open>Window.SetRect\<close> and \<open>Window.SetBorder\<close>: a full-size client is
  laid out in the inner rectangle, and an attached window reports to its manager.
\<close>

definition layout_client :: "win_ref \<Rightarrow> world \<Rightarrow> world" where
  "layout_client win s =
     (case client (windows s win) of
        Some c \<Rightarrow>
          if clientFullSize (windows s win)
          then Primitive_SetRect c (Box_GetInnerRect (box (windows s win))) s
          else s
      | None \<Rightarrow> s)"

definition notify_resized :: "win_ref \<Rightarrow> world \<Rightarrow> world" where
  "notify_resized win s =
     (case desktop (windows s win) of Some d \<Rightarrow> winMgr_Resized win s | None \<Rightarrow> s)"

text \<open>The clamp that \<open>SetRect\<close> and \<open>SetRestoredRect\<close> both apply to a bordered window.\<close>

definition bound_width :: "bool \<Rightarrow> go_int \<Rightarrow> go_int" where
  "bound_width bordered width = (if bordered \<and> width <s 12 then 12 else width)"

definition bound_height :: "bool \<Rightarrow> go_int \<Rightarrow> go_int" where
  "bound_height bordered height = (if bordered \<and> height <s 2 then 2 else height)"

definition Window_GetRect :: "win_ref \<Rightarrow> world \<Rightarrow> rect" where
  "Window_GetRect win s = Box_GetRect (box (windows s win))"

definition Window_GetRestoredRect :: "win_ref \<Rightarrow> world \<Rightarrow> rect" where
  "Window_GetRestoredRect win s =
     (rx (windows s win), ry (windows s win), rw (windows s win), rh (windows s win))"

definition track_restored :: "Window \<Rightarrow> Window" where
  "track_restored w =
     (if state w = Restored
      then (case Box_GetRect (box w) of
              (x, y, width, height) \<Rightarrow> w\<lparr>rx := x, ry := y, rw := width, rh := height\<rparr>)
      else w)"

definition Window_SetRect ::
  "win_ref \<Rightarrow> go_int \<Rightarrow> go_int \<Rightarrow> go_int \<Rightarrow> go_int \<Rightarrow> world \<Rightarrow> world" where
  "Window_SetRect win x y width height s =
     (let width' = bound_width (border (windows s win)) width;
          height' = bound_height (border (windows s win)) height;
          s1 = upd_win win (\<lambda>w. w\<lparr>box := Box_SetRect x y width' height' (box w)\<rparr>) s;
          s2 = upd_win win track_restored s1;
          s3 = layout_client win s2
      in notify_resized win s3)"

definition Window_SetRestoredRect ::
  "win_ref \<Rightarrow> go_int \<Rightarrow> go_int \<Rightarrow> go_int \<Rightarrow> go_int \<Rightarrow> world \<Rightarrow> world" where
  "Window_SetRestoredRect win x y width height s =
     (if state (windows s win) = Restored
      then Window_SetRect win x y width height s
      else
        (let width' = bound_width (border (windows s win)) width;
             height' = bound_height (border (windows s win)) height
         in upd_win win (\<lambda>w. w\<lparr>rx := x, ry := y, rw := width', rh := height'\<rparr>) s))"

text \<open>
  \<open>Window.SetState\<close> hands the transition to the manager's \<open>SetState\<close>. Of the two
  revisions of the manager in the sources, one has this method (the other one reacts to a
  state already stored, with the same three cases); it is the one modelled.
\<close>

definition winMgr_SetState :: "win_ref \<Rightarrow> WindowState \<Rightarrow> world \<Rightarrow> world" where
  "winMgr_SetState win st s =
     (if st = state (windows s win) then s
      else
        (let s1 = upd_win win (\<lambda>w. w\<lparr>state := st\<rparr>) s
         in case st of
              Restored \<Rightarrow>
                Window_SetRect win (rx (windows s1 win)) (ry (windows s1 win))
                  (rw (windows s1 win)) (rh (windows s1 win)) s1
            | Minimized \<Rightarrow> Window_SetRect win 0 0 1 1 s1
            | Maximized \<Rightarrow>
                (case desktop (windows s1 win) of
                   Some d \<Rightarrow>
                     (case Box_GetInnerRect (d_box (desktops s1 d)) of
                        (x, y, width, height) \<Rightarrow> Window_SetRect win x y width height s1)
                 | None \<Rightarrow> s1)))"

definition Window_GetState :: "win_ref \<Rightarrow> world \<Rightarrow> WindowState" where
  "Window_GetState win s = state (windows s win)"

definition Window_SetState :: "win_ref \<Rightarrow> WindowState \<Rightarrow> world \<Rightarrow> world" where
  "Window_SetState win st s =
     (case desktop (windows s win) of
        Some d \<Rightarrow> winMgr_SetState win st s
      | None \<Rightarrow> upd_win win (\<lambda>w. w\<lparr>state := st\<rparr>) s)"

definition Window_SetBorder :: "win_ref \<Rightarrow> bool \<Rightarrow> world \<Rightarrow> world" where
  "Window_SetBorder win show s =
     (let s1 = upd_win win (\<lambda>w. w\<lparr>box := Box_SetBorder show (box w)\<rparr>) s;
          s2 = upd_win win (\<lambda>w. w\<lparr>border := show\<rparr>) s1;
          s3 = layout_client win s2
      in notify_resized win s3)"

definition Window_SetAutoPosition :: "win_ref \<Rightarrow> bool \<Rightarrow> world \<Rightarrow> world" where
  "Window_SetAutoPosition win on s = upd_win win (\<lambda>w. w\<lparr>autoPosition := on\<rparr>) s"

definition Window_SetResizable :: "win_ref \<Rightarrow> bool \<Rightarrow> world \<Rightarrow> world" where
  "Window_SetResizable win on s = upd_win win (\<lambda>w. w\<lparr>resizable := on\<rparr>) s"

definition Window_GetDesktop :: "win_ref \<Rightarrow> world \<Rightarrow> desk_ref option" where
  "Window_GetDesktop win s = desktop (windows s win)"

section \<open>The window stack\<close>

text \<open>
  The loop \<open>for i, xw := range wins { if xw == win { ...; break } }\<close> runs its body at
  most once, at the first index whose entry is the window: \<open>range_find\<close> walks the
  slice with the index and gives that index, or \<open>None\<close> when the loop ends without a
  match.
\<close>

fun range_find :: "nat \<Rightarrow> 'a list \<Rightarrow> 'a \<Rightarrow> nat option" where
  "range_find i [] v = None"
| "range_find i (x # xs) v = (if x = v then Some i else range_find (Suc i) xs v)"

text \<open>
  Go's \<open>copy(dst, src)\<close> overwrites the first \<open>min (len dst) (len src)\<close> elements of
  \<open>dst\<close>; \<open>go_copy\<close> is \<open>dst\<close> afterwards. \<open>copy(xs[i:], xs[i+1:])\<close> works on the
  one backing array, so the slice \<open>xs\<close> keeps its length and its last element.
\<close>

definition go_copy :: "'a list \<Rightarrow> 'a list \<Rightarrow> 'a list" where
  "go_copy dst src = take (length dst) src @ drop (length src) dst"

definition shift_down :: "nat \<Rightarrow> 'a list \<Rightarrow> 'a list" where
  "shift_down i xs = take i xs @ go_copy (drop i xs) (drop (i + 1) xs)"

definition Desktop_RemoveWindow :: "desk_ref \<Rightarrow> win_ref \<Rightarrow> world \<Rightarrow> world" where
  "Desktop_RemoveWindow d win s =
     (case range_find 0 (wins (desktops s d)) win of
        Some i \<Rightarrow>
          (let s1 = upd_desk d (\<lambda>x. x\<lparr>wins := shift_down i (wins x)\<rparr>) s;
               s2 = upd_desk d (\<lambda>x. x\<lparr>wins := take (length (wins x) - 1) (wins x)\<rparr>) s1
           in winMgr_Removed win s2)
      | None \<Rightarrow> s)"

text \<open>
  \<open>Window.InitWindow\<close>, without the title alignment it copies from the theme (a field
  of the box that nothing here reads).
\<close>

definition Window_InitWindow :: "win_ref \<Rightarrow> world \<Rightarrow> world" where
  "Window_InitWindow win s =
     (case desktop (windows s win) of
        None \<Rightarrow> s
      | Some d \<Rightarrow>
          (let s1 =
             (if autoPosition (windows s win)
              then
                (case Box_GetInnerRect (d_box (desktops s d)) of
                   (inX, inY, inW, inH) \<Rightarrow>
                     (case Window_GetRect win s of
                        (_, _, winW, winH) \<Rightarrow>
                          (let pos = autoWinPos (desktops s d);
                               sa = Window_SetRect win (inX + pos) (inY + pos) winW winH s;
                               sb = upd_desk d (\<lambda>x. x\<lparr>autoWinPos := autoWinPos x + 2\<rparr>) sa
                           in if inW - 10 \<le>s autoWinPos (desktops sb d)
                                 \<or> inH - 10 \<le>s autoWinPos (desktops sb d)
                              then upd_desk d (\<lambda>x. x\<lparr>autoWinPos := 0\<rparr>) sb
                              else sb)))
              else s)
           in layout_client win s1))"

definition Desktop_AddWindow :: "desk_ref \<Rightarrow> win_ref \<Rightarrow> world \<Rightarrow> world" where
  "Desktop_AddWindow d win s =
     (if desktop (windows s win) = Some d then s
      else
        (let s0 = (case desktop (windows s win) of
                     Some d' \<Rightarrow> Desktop_RemoveWindow d' win s
                   | None \<Rightarrow> s);
             s1 = upd_desk d (\<lambda>x. x\<lparr>wins := wins x @ [win]\<rparr>) s0;
             s2 = upd_win win (\<lambda>w. w\<lparr>desktop := Some d\<rparr>) s1;
             s3 = (if init (desktops s2 d) then Window_InitWindow win s2 else s2)
         in winMgr_Added win s3))"

definition Desktop_TopWindow :: "desk_ref \<Rightarrow> world \<Rightarrow> win_ref option" where
  "Desktop_TopWindow d s =
     (let ws = wins (desktops s d)
      in if 0 < length ws then Some (ws ! (length ws - 1)) else None)"

definition Desktop_BottomWindow :: "desk_ref \<Rightarrow> world \<Rightarrow> win_ref option" where
  "Desktop_BottomWindow d s =
     (let ws = wins (desktops s d)
      in if 0 < length ws then Some (ws ! 0) else None)"

definition Window_BringToFront :: "win_ref \<Rightarrow> world \<Rightarrow> world" where
  "Window_BringToFront win s =
     (case desktop (windows s win) of
        None \<Rightarrow> s
      | Some d \<Rightarrow>
          (let ws = wins (desktops s d)
           in if 0 < length ws \<and> win \<noteq> ws ! (length ws - 1)
              then
                (case range_find 0 ws win of
                   Some i \<Rightarrow>
                     upd_desk d (\<lambda>x. x\<lparr>wins := (shift_down i ws)[length ws - 1 := win]\<rparr>) s
                 | None \<Rightarrow> s)
              else s))"

definition Window_NextWindow :: "win_ref \<Rightarrow> world \<Rightarrow> win_ref option" where
  "Window_NextWindow win s =
     (case desktop (windows s win) of
        None \<Rightarrow> None
      | Some d \<Rightarrow>
          (let ws = wins (desktops s d)
           in if length ws \<le> 1 then None
              else
                (case range_find 0 ws win of
                   Some i \<Rightarrow> if i = 0 then Some (ws ! (length ws - 1)) else Some (ws ! (i - 1))
                 | None \<Rightarrow> None)))"

definition Window_PrevWindow :: "win_ref \<Rightarrow> world \<Rightarrow> win_ref option" where
  "Window_PrevWindow win s =
     (case desktop (windows s win) of
        None \<Rightarrow> None
      | Some d \<Rightarrow>
          (let ws = wins (desktops s d)
           in if length ws \<le> 1 then None
              else
                (case range_find 0 ws win of
                   Some i \<Rightarrow> if i = length ws - 1 then Some (ws ! 0) else Some (ws ! (i + 1))
                 | None \<Rightarrow> None)))"

section \<open>Desktop geometry\<close>

fun DesktopResized_loop :: "desk_ref \<Rightarrow> win_ref list \<Rightarrow> world \<Rightarrow> world" where
  "DesktopResized_loop d [] s = s"
| "DesktopResized_loop d (win # rest) s =
     DesktopResized_loop d rest
       (if state (windows s win) = Maximized
        then (case Box_GetInnerRect (d_box (desktops s d)) of
                (x, y, width, height) \<Rightarrow> Window_SetRect win x y width height s)
        else s)"

definition winMgr_DesktopResized :: "desk_ref \<Rightarrow> world \<Rightarrow> world" where
  "winMgr_DesktopResized d s = DesktopResized_loop d (wins (desktops s d)) s"

definition Desktop_SetRect ::
  "desk_ref \<Rightarrow> go_int \<Rightarrow> go_int \<Rightarrow> go_int \<Rightarrow> go_int \<Rightarrow> world \<Rightarrow> world" where
  "Desktop_SetRect d x y width height s =
     (let s1 = upd_desk d (\<lambda>v. v\<lparr>d_box := Box_SetRect x y width height (d_box v)\<rparr>) s;
          s2 = (case d_client (desktops s1 d) of
                  Some c \<Rightarrow>
                    if d_clientFullSize (desktops s1 d)
                    then Primitive_SetRect c (Box_GetInnerRect (d_box (desktops s1 d))) s1
                    else s1
                | None \<Rightarrow> s1)
      in winMgr_DesktopResized d s2)"

section \<open>Fresh objects\<close>

text \<open>
  \<open>tview.NewBox\<close> gives a box of 15 by 10 cells at the origin without border;
  \<open>NewWindow\<close> and \<open>NewDesktop\<close> wrap one, \<open>NewWindow\<close> with \<open>autoActivate\<close> set.
  In the world \<open>fresh\<close> every reference denotes a new, detached object.
\<close>

definition NewBox :: Box where
  "NewBox = \<lparr>box_x = 0, box_y = 0, box_width = 15, box_height = 10,
             box_border = False, box_hasFocus = False\<rparr>"

definition NewWindow :: Window where
  "NewWindow = \<lparr>box = NewBox, desktop = None, client = None, title = [],
     moveX = 0, moveY = 0, rx = 0, ry = 0, rw = 0, rh = 0, state = Restored,
     clientFullSize = False, border = False, noCaption = False, autoActivate = True,
     moving = False, autoPosition = False, resizable = False, resizing = 0\<rparr>"

definition NewDesktop :: Desktop where
  "NewDesktop = \<lparr>d_box = NewBox, wins = [], d_client = None, autoWinPos = 0,
     init = False, d_clientFullSize = False\<rparr>"

definition NewClient :: Client where
  "NewClient = \<lparr>c_rect = (0, 0, 15, 10), c_hasFocus = False, c_MouseHandler = None\<rparr>"

definition fresh :: world where
  "fresh = \<lparr>windows = (\<lambda>_. NewWindow), desktops = (\<lambda>_. NewDesktop),
     clients = (\<lambda>_. NewClient), calls = []\<rparr>"

section \<open>The demo's desktop\<close>

text \<open>
  The world the demo program builds: two bordered windows of 30 by 15 cells, the second
  one resizable, added to one desktop in this order; the application then gives the
  desktop the screen, here 80 by 25 cells.
\<close>

definition demo_windows :: world where
  "demo_windows =
     Window_SetRect 2 0 0 30 15 (Window_SetBorder 2 True (Window_SetResizable 2 True
       (Window_SetRect 1 0 0 30 15 (Window_SetBorder 1 True fresh))))"

definition demo :: world where
  "demo = Desktop_SetRect 0 0 0 80 25 (Desktop_AddWindow 0 2 (Desktop_AddWindow 0 1 demo_windows))"

section \<open>Walking the stack\<close>

text \<open>
  \<open>follow step k win\<close> is the window reached from \<open>win\<close> by \<open>k\<close> calls of
  \<open>NextWindow\<close> (or of \<open>PrevWindow\<close>), each on the window the call before returned;
  \<open>None\<close> when one of the calls returns nil. A stack is well attached when no window
  is on it twice and every window on it names the desktop as its own: this is how
  \<open>AddWindow\<close> leaves a stack.
\<close>

fun follow ::
  "(win_ref \<Rightarrow> world \<Rightarrow> win_ref option) \<Rightarrow> nat \<Rightarrow> win_ref \<Rightarrow> world \<Rightarrow> win_ref option" where
  "follow step 0 win s = Some win"
| "follow step (Suc k) win s =
     (case step win s of None \<Rightarrow> None | Some next \<Rightarrow> follow step k next s)"

definition well_attached :: "desk_ref \<Rightarrow> world \<Rightarrow> bool" where
  "well_attached d s \<longleftrightarrow>
     distinct (wins (desktops s d)) \<and>
     (\<forall>w \<in> set (wins (desktops s d)). desktop (windows s w) = Some d)"

section \<open>Clients and focus\<close>

definition Window_SetClient :: "win_ref \<Rightarrow> prim_ref option \<Rightarrow> bool \<Rightarrow> world \<Rightarrow> world" where
  "Window_SetClient win c fullSize s =
     (let s1 = upd_win win (\<lambda>w. w\<lparr>client := c, clientFullSize := fullSize\<rparr>) s
      in case c of
           Some p \<Rightarrow>
             if fullSize then Primitive_SetRect p (Box_GetInnerRect (box (windows s1 win))) s1
             else s1
         | None \<Rightarrow> s1)"

definition Window_HasFocus :: "win_ref \<Rightarrow> world \<Rightarrow> bool" where
  "Window_HasFocus win s =
     (case client (windows s win) of
        Some p \<Rightarrow> c_hasFocus (clients s p) \<or> box_hasFocus (box (windows s win))
      | None \<Rightarrow> box_hasFocus (box (windows s win)))"

text \<open>\<open>setFocus\<close> belongs to the application: the model records that it was called.\<close>

definition Window_Activate :: "win_ref \<Rightarrow> world \<Rightarrow> world" where
  "Window_Activate win s =
     (let s1 = Window_BringToFront win s
      in if \<not> Window_HasFocus win s1 then called (SetFocus (PWindow win)) s1 else s1)"

section \<open>The default mouse handling of the manager\<close>

text \<open>
  \<open>winMgr.DefaultMouseHandler\<close> in the revision that \<open>Window.MouseHandler\<close> calls,
  with an action, an event and the results \<open>(consumed, capture)\<close>; the earlier revision
  has the same press, move and toggle code without these results. The condition that the
  code comments as ``mouse in caption'' is \<open>in_caption\<close>: the window is bordered and
  the pointer is on its top row.
\<close>

definition in_caption :: "win_ref \<Rightarrow> EventMouse \<Rightarrow> world \<Rightarrow> bool" where
  "in_caption win event s =
     (case Window_GetRect win s of
        (x, y, w, h) \<Rightarrow> border (windows s win) \<and> y \<le>s atY event \<and> atY event <s y + 1)"

text \<open>The branch of \<open>MouseLeftDown\<close>: the world and \<open>consumed\<close> at its end.\<close>

definition mouse_down :: "win_ref \<Rightarrow> EventMouse \<Rightarrow> world \<Rightarrow> bool \<times> world" where
  "mouse_down win event s =
     (case Window_GetRect win s of
        (x, y, w, h) \<Rightarrow>
          (let s1 =
             (if in_caption win event s
              then upd_win win (\<lambda>v. v\<lparr>moveX := atX event - x, moveY := atY event - y,
                     moving := (buttons event = Button1)\<rparr>) s
              else s)
           in if moving (windows s1 win) then (True, s1)
              else if resizable (windows s1 win)
              then
                (let (c1, s2) =
                   (if atX event = x + w - 1
                    then (True, upd_win win (\<lambda>v. v\<lparr>resizing := resizing v OR 1\<rparr>) s1)
                    else (False, s1))
                 in if atY event = y + h - 1
                    then (True, upd_win win (\<lambda>v. v\<lparr>resizing := resizing v OR 2\<rparr>) s2)
                    else (c1, s2))
              else (False, s1)))"

text \<open>The branch of \<open>MouseMove\<close>.\<close>

definition mouse_move :: "win_ref \<Rightarrow> EventMouse \<Rightarrow> world \<Rightarrow> bool \<times> world" where
  "mouse_move win event s =
     (case Window_GetRect win s of
        (x, y, w, h) \<Rightarrow>
          if moving (windows s win)
          then
            (let mX = atX event - x; mY = atY event - y
             in (True, Window_SetRect win (x + (mX - moveX (windows s win)))
                         (y + (mY - moveY (windows s win))) w h s))
          else if resizing (windows s win) \<noteq> 0
          then
            (let neww = (if resizing (windows s win) AND 1 \<noteq> 0 then atX event - x + 1 else w);
                 newh = (if resizing (windows s win) AND 2 \<noteq> 0 then atY event - y + 1 else h)
             in (True, Window_SetRect win x y neww newh s))
          else (False, s))"

text \<open>The last block, reached with a \<open>MouseLeftDoubleClick\<close> that nothing consumed.\<close>

definition double_click :: "win_ref \<Rightarrow> EventMouse \<Rightarrow> world \<Rightarrow> bool \<times> world" where
  "double_click win event s =
     (if resizable (windows s win) \<and> desktop (windows s win) \<noteq> None
      then
        (if in_caption win event s
         then
           (True,
            (case Window_GetState win s of
               Minimized \<Rightarrow> Window_SetState win Restored s
             | Maximized \<Rightarrow> Window_SetState win Restored s
             | Restored \<Rightarrow> Window_SetState win Maximized s))
         else (False, s))
      else (False, s))"

definition winMgr_DefaultMouseHandler ::
  "win_ref \<Rightarrow> MouseAction \<Rightarrow> EventMouse \<Rightarrow> world \<Rightarrow> bool \<times> Primitive option \<times> world" where
  "winMgr_DefaultMouseHandler win action event s =
     (if \<not> Box_InRect (box (windows s win)) (atX event) (atY event)
         \<and> \<not> moving (windows s win) \<and> resizing (windows s win) = 0
      then (False, None, s)
      else if action = MouseLeftUp \<and> (moving (windows s win) \<or> resizing (windows s win) \<noteq> 0)
      then (True, None, upd_win win (\<lambda>v. v\<lparr>moving := False, resizing := 0\<rparr>) s)
      else
        (case
           (if action = MouseLeftDown then mouse_down win event s
            else if action = MouseMove then mouse_move win event s
            else (False, s))
         of (consumed, s1) \<Rightarrow>
           if consumed then (True, Some (PWindow win), s1)
           else if action = MouseLeftDoubleClick
           then (case double_click win event s1 of (consumed', s2) \<Rightarrow> (consumed', None, s2))
           else (False, None, s1)))"

section \<open>Mouse dispatch\<close>

definition Window_MouseHandler ::
  "win_ref \<Rightarrow> MouseAction \<Rightarrow> EventMouse \<Rightarrow> world \<Rightarrow> bool \<times> Primitive option \<times> world" where
  "Window_MouseHandler win action event s =
     (let mouseInWin = Box_InRect (box (windows s win)) (atX event) (atY event);
          activated = (action = MouseLeftDown \<and> mouseInWin \<and> autoActivate (windows s win));
          s1 = (if activated then Window_Activate win s else s);
          (consumed, capture, s2) =
            (case desktop (windows s1 win) of
               Some d \<Rightarrow> winMgr_DefaultMouseHandler win action event s1
             | None \<Rightarrow> (False, None, s1))
      in if consumed then (True, capture, s2)
         else if \<not> mouseInWin then (False, None, s2)
         else
           (let (consumed', capture') =
              (case client (windows s2 win) of
                 Some p \<Rightarrow>
                   (case c_MouseHandler (clients s2 p) of
                      Some handler \<Rightarrow> handler action event
                    | None \<Rightarrow> (False, capture))
               | None \<Rightarrow> (False, capture))
            in if consumed' then (True, capture', s2)
               else (activated, capture', s2)))"

text \<open>
  The loop of \<open>Desktop.MouseHandler\<close> counts \<open>iwin\<close> down from the top of the stack and
  reads \<open>d.wins[iwin]\<close> from the desktop as it is at that moment; an index outside the
  slice is a run-time panic, the result \<open>None\<close>. The first argument is \<open>iwin + 1\<close>.
\<close>

fun MouseHandler_loop ::
  "nat \<Rightarrow> desk_ref \<Rightarrow> MouseAction \<Rightarrow> EventMouse \<Rightarrow> Primitive option \<Rightarrow> world \<Rightarrow>
     (bool \<times> Primitive option \<times> world) option" where
  "MouseHandler_loop 0 d action event capture s = Some (False, capture, s)"
| "MouseHandler_loop (Suc iwin) d action event capture s =
     (if iwin < length (wins (desktops s d))
      then
        (case Window_MouseHandler (wins (desktops s d) ! iwin) action event s of
           (consumed, capture', s1) \<Rightarrow>
             if consumed then Some (True, capture', s1)
             else MouseHandler_loop iwin d action event capture' s1)
      else None)"

definition client_MouseHandler ::
  "desk_ref \<Rightarrow> MouseAction \<Rightarrow> EventMouse \<Rightarrow> Primitive option \<Rightarrow> world \<Rightarrow>
     bool \<times> Primitive option \<times> world" where
  "client_MouseHandler d action event capture s =
     (case d_client (desktops s d) of
        Some p \<Rightarrow>
          (case c_MouseHandler (clients s p) of
             Some handler \<Rightarrow>
               (case handler action event of (consumed, capture') \<Rightarrow> (consumed, capture', s))
           | None \<Rightarrow> (False, capture, s))
      | None \<Rightarrow> (False, capture, s))"

definition Desktop_MouseHandler ::
  "desk_ref \<Rightarrow> MouseAction \<Rightarrow> EventMouse \<Rightarrow> world \<Rightarrow>
     (bool \<times> Primitive option \<times> world) option" where
  "Desktop_MouseHandler d action event s =
     (if \<not> Box_InRect (d_box (desktops s d)) (atX event) (atY event)
      then Some (False, None, s)
      else
        (case MouseHandler_loop (length (wins (desktops s d))) d action event None s of
           None \<Rightarrow> None
         | Some (consumed, capture, s1) \<Rightarrow>
             if consumed then Some (True, capture, s1)
             else Some (client_MouseHandler d action event capture s1)))"

section \<open>Mouse routing as the specification words it\<close>

text \<open>
  The windows of a list are offered the event one after the other; the first whose
  handler reports the event consumed ends the round, and its result is the result. Where
  no window consumes the event, the desktop's client content is offered it last.
\<close>

fun offer_in_order ::
  "win_ref list \<Rightarrow> MouseAction \<Rightarrow> EventMouse \<Rightarrow> Primitive option \<Rightarrow> world \<Rightarrow>
     bool \<times> Primitive option \<times> world" where
  "offer_in_order [] action event capture s = (False, capture, s)"
| "offer_in_order (win # others) action event capture s =
     (case Window_MouseHandler win action event s of
        (consumed, capture', s1) \<Rightarrow>
          if consumed then (True, capture', s1)
          else offer_in_order others action event capture' s1)"

definition windows_then_client ::
  "desk_ref \<Rightarrow> win_ref list \<Rightarrow> MouseAction \<Rightarrow> EventMouse \<Rightarrow> world \<Rightarrow>
     bool \<times> Primitive option \<times> world" where
  "windows_then_client d ws action event s =
     (case offer_in_order ws action event None s of
        (consumed, capture, s1) \<Rightarrow>
          if consumed then (True, capture, s1)
          else client_MouseHandler d action event capture s1)"

text \<open>A press of the left button at a cell that both windows of the demo cover.\<close>

definition click :: EventMouse where
  "click = \<lparr>atX = 5, atY = 5, buttons = Button1\<rparr>"

section \<open>A narrow window\<close>

text \<open>
  A window that is given a rectangle of 5 by 1 cells and then a border and a full-size
  client, on a desktop of its own; \<open>narrow_drag\<close> is the world after the left button
  is pressed on its caption.
\<close>

definition narrow_plain :: world where
  "narrow_plain = Desktop_AddWindow 0 1 (Window_SetClient 1 (Some 7) True
     (Window_SetRect 1 0 0 5 1 fresh))"

definition narrow :: world where
  "narrow = Window_SetBorder 1 True narrow_plain"

definition narrow_drag :: world where
  "narrow_drag =
     snd (snd (winMgr_DefaultMouseHandler 1 MouseLeftDown \<lparr>atX = 2, atY = 0, buttons = Button1\<rparr>
       narrow))"

text \<open>
  The drag of the specification's scenario, on the second window of the demo: a press on
  the caption at column 7, a move 5 cells to the right and 3 down, the release, and one
  more move.
\<close>

definition press :: EventMouse where
  "press = \<lparr>atX = 7, atY = 0, buttons = Button1\<rparr>"

definition drag_to :: EventMouse where
  "drag_to = \<lparr>atX = 12, atY = 3, buttons = Button1\<rparr>"

definition move_on :: EventMouse where
  "move_on = \<lparr>atX = 20, atY = 10, buttons = 0\<rparr>"

definition demo_pressed :: world where
  "demo_pressed = snd (snd (winMgr_DefaultMouseHandler 2 MouseLeftDown press demo))"

definition demo_dragged :: world where
  "demo_dragged = snd (snd (winMgr_DefaultMouseHandler 2 MouseMove drag_to demo_pressed))"

definition demo_released :: world where
  "demo_released = snd (snd (winMgr_DefaultMouseHandler 2 MouseLeftUp drag_to demo_dragged))"

text \<open>The state a double-click on the caption asks for.\<close>

definition toggled :: "WindowState \<Rightarrow> WindowState" where
  "toggled st = (case st of Restored \<Rightarrow> Maximized | Minimized \<Rightarrow> Restored | Maximized \<Rightarrow> Restored)"

text \<open>A double-click on the caption of the demo's second window, and one more on the
  caption of the maximized window.\<close>

definition dclick :: EventMouse where
  "dclick = \<lparr>atX = 7, atY = 0, buttons = 0\<rparr>"

definition dclick_again :: EventMouse where
  "dclick_again = \<lparr>atX = 40, atY = 0, buttons = 0\<rparr>"

section \<open>What the geometry setters change\<close>

lemma bound_width_ge: "12 \<le>s bound_width True width"
  by (simp add: bound_width_def word_sless_alt word_sle_eq)

lemma bound_height_ge: "2 \<le>s bound_height True height"
  by (simp add: bound_height_def word_sless_alt word_sle_eq)

lemma bound_width_idem: "bound_width b (bound_width b width) = bound_width b width"
  by (simp add: bound_width_def word_sless_alt)

lemma bound_height_idem: "bound_height b (bound_height b height) = bound_height b height"
  by (simp add: bound_height_def word_sless_alt)

lemma windows_layout_client: "windows (layout_client win s) = windows s"
  by (simp add: layout_client_def Primitive_SetRect_def split: option.splits)

lemma windows_notify_resized: "windows (notify_resized win s) = windows s"
  by (simp add: notify_resized_def winMgr_Resized_def called_def split: option.splits)

lemma desktops_layout_client: "desktops (layout_client win s) = desktops s"
  by (simp add: layout_client_def Primitive_SetRect_def split: option.splits)

lemma desktops_notify_resized: "desktops (notify_resized win s) = desktops s"
  by (simp add: notify_resized_def winMgr_Resized_def called_def split: option.splits)

lemma windows_upd_win: "windows (upd_win win f s) = (windows s)(win := f (windows s win))"
  by (simp add: upd_win_def)

lemma desktops_upd_win: "desktops (upd_win win f s) = desktops s"
  by (simp add: upd_win_def)

lemma windows_SetRect:
  "windows (Window_SetRect win x y width height s) =
     (windows s)(win := track_restored ((windows s win)\<lparr>box :=
        Box_SetRect x y (bound_width (border (windows s win)) width)
          (bound_height (border (windows s win)) height) (box (windows s win))\<rparr>))"
  by (simp add: Window_SetRect_def Let_def windows_notify_resized windows_layout_client
      windows_upd_win)

lemma desktops_SetRect: "desktops (Window_SetRect win x y width height s) = desktops s"
  by (simp add: Window_SetRect_def Let_def desktops_notify_resized desktops_layout_client
      desktops_upd_win)

lemma track_restored_fields:
  "box (track_restored w) = box w" "state (track_restored w) = state w"
  "border (track_restored w) = border w" "desktop (track_restored w) = desktop w"
  by (simp_all add: track_restored_def Box_GetRect_def)

lemma track_restored_rect:
  "(rx (track_restored w), ry (track_restored w), rw (track_restored w), rh (track_restored w)) =
     (if state w = Restored then Box_GetRect (box w) else (rx w, ry w, rw w, rh w))"
  by (simp add: track_restored_def Box_GetRect_def)

lemma GetRect_SetRect:
  "Window_GetRect win (Window_SetRect win x y width height s) =
     (x, y, bound_width (border (windows s win)) width,
      bound_height (border (windows s win)) height)"
  by (simp add: Window_GetRect_def windows_SetRect track_restored_fields Box_GetRect_def
      Box_SetRect_def)

lemma state_SetRect:
  "state (windows (Window_SetRect win x y width height s) w) = state (windows s w)"
  by (simp add: windows_SetRect track_restored_fields)

lemma border_SetRect:
  "border (windows (Window_SetRect win x y width height s) w) = border (windows s w)"
  by (simp add: windows_SetRect track_restored_fields)

lemma desktop_SetRect:
  "desktop (windows (Window_SetRect win x y width height s) w) = desktop (windows s w)"
  by (simp add: windows_SetRect track_restored_fields)

lemma GetRestoredRect_SetRect:
  "Window_GetRestoredRect win (Window_SetRect win x y width height s) =
     (if state (windows s win) = Restored
      then (x, y, bound_width (border (windows s win)) width,
            bound_height (border (windows s win)) height)
      else Window_GetRestoredRect win s)"
  using track_restored_rect [of "(windows s win)\<lparr>box :=
        Box_SetRect x y (bound_width (border (windows s win)) width)
          (bound_height (border (windows s win)) height) (box (windows s win))\<rparr>"]
  by (simp add: Window_GetRestoredRect_def windows_SetRect Box_GetRect_def Box_SetRect_def)

lemma GetRestoredRect_SetRestoredRect:
  "Window_GetRestoredRect win (Window_SetRestoredRect win x y width height s) =
     (x, y, bound_width (border (windows s win)) width,
      bound_height (border (windows s win)) height)"
proof (cases "state (windows s win) = Restored")
  case True
  then show ?thesis
    by (simp add: Window_SetRestoredRect_def GetRestoredRect_SetRect)
next
  case False
  then show ?thesis
    by (simp add: Window_SetRestoredRect_def Let_def Window_GetRestoredRect_def windows_upd_win)
qed

lemma border_SetRestoredRect:
  "border (windows (Window_SetRestoredRect win x y width height s) w) = border (windows s w)"
  by (simp add: Window_SetRestoredRect_def border_SetRect Let_def windows_upd_win)

lemma border_winMgr_SetState:
  "border (windows (winMgr_SetState win st s) w) = border (windows s w)"
  by (simp add: winMgr_SetState_def Let_def border_SetRect windows_upd_win
      split: WindowState.splits option.splits prod.splits)

lemma GetRect_winMgr_SetState_bounded:
  assumes "border (windows s win)" and "st \<noteq> state (windows s win)"
    and "st = Maximized \<longrightarrow> desktop (windows s win) \<noteq> None"
  shows "case Window_GetRect win (winMgr_SetState win st s) of
           (x, y, width, height) \<Rightarrow> 12 \<le>s width \<and> 2 \<le>s height"
proof (cases st)
  case Restored
  with assms show ?thesis
    by (simp add: winMgr_SetState_def Let_def GetRect_SetRect windows_upd_win
        bound_width_ge bound_height_ge)
next
  case Minimized
  with assms show ?thesis
    by (simp add: winMgr_SetState_def Let_def GetRect_SetRect windows_upd_win
        bound_width_ge bound_height_ge)
next
  case Maximized
  with assms obtain d where d: "desktop (windows s win) = Some d"
    by auto
  obtain x y width height where
    r: "Box_GetInnerRect (d_box (desktops s d)) = (x, y, width, height)"
    by (cases "Box_GetInnerRect (d_box (desktops s d))") auto
  from Maximized assms d r show ?thesis
    by (simp add: winMgr_SetState_def Let_def GetRect_SetRect windows_upd_win
        desktops_upd_win bound_width_ge bound_height_ge)
qed

section \<open>The demo's world, evaluated\<close>

lemmas demo_eval =
  Window_SetBorder_def Window_SetRect_def Window_SetResizable_def Let_def upd_win_def
  upd_desk_def layout_client_def notify_resized_def winMgr_Resized_def called_def fresh_def
  NewWindow_def NewBox_def NewDesktop_def Box_SetRect_def Box_SetBorder_def
  track_restored_def Box_GetRect_def bound_width_def bound_height_def word_sless_alt
  word_sle_eq Desktop_AddWindow_def Desktop_RemoveWindow_def Desktop_SetRect_def
  winMgr_DesktopResized_def winMgr_Added_def

lemma demo_window_1:
  "windows demo 1 = \<lparr>box = \<lparr>box_x = 0, box_y = 0, box_width = 30, box_height = 15,
       box_border = True, box_hasFocus = False\<rparr>,
     desktop = Some 0, client = None, title = [],
     moveX = 0, moveY = 0, rx = 0, ry = 0, rw = 30, rh = 15, state = Restored,
     clientFullSize = False, border = True, noCaption = False, autoActivate = True,
     moving = False, autoPosition = False, resizable = False, resizing = 0\<rparr>"
  by (simp add: demo_def demo_windows_def demo_eval)

lemma demo_window_2:
  "windows demo 2 = \<lparr>box = \<lparr>box_x = 0, box_y = 0, box_width = 30, box_height = 15,
       box_border = True, box_hasFocus = False\<rparr>,
     desktop = Some 0, client = None, title = [],
     moveX = 0, moveY = 0, rx = 0, ry = 0, rw = 30, rh = 15, state = Restored,
     clientFullSize = False, border = True, noCaption = False, autoActivate = True,
     moving = False, autoPosition = False, resizable = True, resizing = 0\<rparr>"
  by (simp add: demo_def demo_windows_def demo_eval)

lemma demo_desktop_0:
  "desktops demo 0 = \<lparr>d_box = \<lparr>box_x = 0, box_y = 0, box_width = 80, box_height = 25,
       box_border = False, box_hasFocus = False\<rparr>,
     wins = [1, 2], d_client = None, autoWinPos = 0, init = False, d_clientFullSize = False\<rparr>"
  by (simp add: demo_def demo_windows_def demo_eval)

lemma demo_calls: "calls demo = [Added 1, Added 2]"
  by (simp add: demo_def demo_windows_def demo_eval)

lemma demo_state_1: "state (windows demo 1) = Restored"
  by (simp add: demo_def demo_windows_def demo_eval)

lemma demo_wins: "wins (desktops demo 0) = [1, 2]"
  by (simp add: demo_def demo_windows_def demo_eval)

lemma demo_desktop: "desktop (windows demo 1) = Some 0" "desktop (windows demo 2) = Some 0"
  by (simp_all add: demo_def demo_windows_def demo_eval)

section \<open>The border minimum\<close>

text \<open>
  Claim C1. On a bordered window every geometry-setting call ends with a width of at
  least 12 and a height of at least 2, and no value is rejected: \<open>SetRect\<close> stores the
  rectangle it is given with the width raised to 12 and the height raised to 2 where they
  are smaller; \<open>SetRestoredRect\<close> stores the restored rectangle in the same way, and
  where the window is restored its displayed rectangle too; a state transition of the
  manager that sets the rectangle (the state differs from the current one, and a
  maximized window has a desktop) leaves a displayed rectangle within the bound. The
  window stays bordered.
\<close>

theorem bordered_geometry_minimum:
  assumes "border (windows s win)"
  shows
    "(case Window_GetRect win (Window_SetRect win x y width height s) of
        (x', y', width', height') \<Rightarrow>
          x' = x \<and> y' = y \<and>
          width' = (if width <s 12 then 12 else width) \<and>
          height' = (if height <s 2 then 2 else height) \<and>
          12 \<le>s width' \<and> 2 \<le>s height') \<and>
     (case Window_GetRestoredRect win (Window_SetRestoredRect win x y width height s) of
        (x', y', width', height') \<Rightarrow>
          x' = x \<and> y' = y \<and>
          width' = (if width <s 12 then 12 else width) \<and>
          height' = (if height <s 2 then 2 else height) \<and>
          12 \<le>s width' \<and> 2 \<le>s height') \<and>
     (state (windows s win) = Restored \<longrightarrow>
        Window_GetRect win (Window_SetRestoredRect win x y width height s) =
          Window_GetRestoredRect win (Window_SetRestoredRect win x y width height s)) \<and>
     (st \<noteq> state (windows s win) \<and> (st = Maximized \<longrightarrow> desktop (windows s win) \<noteq> None) \<longrightarrow>
        (case Window_GetRect win (winMgr_SetState win st s) of
           (x', y', width', height') \<Rightarrow> 12 \<le>s width' \<and> 2 \<le>s height')) \<and>
     border (windows (Window_SetRect win x y width height s) win) \<and>
     border (windows (Window_SetRestoredRect win x y width height s) win) \<and>
     border (windows (winMgr_SetState win st s) win)"
proof -
  have ge: "12 \<le>s bound_width True width" "2 \<le>s bound_height True height"
    by (rule bound_width_ge, rule bound_height_ge)
  have bw: "bound_width True width = (if width <s 12 then 12 else width)"
    and bh: "bound_height True height = (if height <s 2 then 2 else height)"
    by (simp_all add: bound_width_def bound_height_def)
  have a: "Window_GetRect win (Window_SetRect win x y width height s) =
      (x, y, bound_width True width, bound_height True height)"
    using assms by (simp add: GetRect_SetRect)
  have b: "Window_GetRestoredRect win (Window_SetRestoredRect win x y width height s) =
      (x, y, bound_width True width, bound_height True height)"
    using assms by (simp add: GetRestoredRect_SetRestoredRect)
  have c: "state (windows s win) = Restored \<Longrightarrow>
      Window_GetRect win (Window_SetRestoredRect win x y width height s) =
        Window_GetRestoredRect win (Window_SetRestoredRect win x y width height s)"
    by (simp add: Window_SetRestoredRect_def GetRect_SetRect GetRestoredRect_SetRect)
  have d: "(case Window_GetRect win (winMgr_SetState win st s) of
           (x', y', width', height') \<Rightarrow> 12 \<le>s width' \<and> 2 \<le>s height')"
    if "st \<noteq> state (windows s win)" "st = Maximized \<longrightarrow> desktop (windows s win) \<noteq> None"
    by (rule GetRect_winMgr_SetState_bounded [OF assms that])
  have e: "border (windows (Window_SetRect win x y width height s) win)"
    "border (windows (Window_SetRestoredRect win x y width height s) win)"
    "border (windows (winMgr_SetState win st s) win)"
    using assms by (simp_all add: border_SetRect border_SetRestoredRect border_winMgr_SetState)
  from a b c d e ge show ?thesis
    unfolding bw bh by simp
qed

theorem bordered_geometry_minimum_witness:
  "border (windows (Window_SetBorder 1 True fresh) 1) \<and>
   state (windows (Window_SetBorder 1 True fresh) 1) = Restored \<and>
   Minimized \<noteq> state (windows (Window_SetBorder 1 True fresh) 1) \<and>
   Window_GetRect 1 (Window_SetRect 1 3 4 5 1 (Window_SetBorder 1 True fresh)) = (3, 4, 12, 2) \<and>
   Window_GetRestoredRect 1 (Window_SetRestoredRect 1 3 4 5 1 (Window_SetBorder 1 True fresh)) =
     (3, 4, 12, 2) \<and>
   Window_GetRect 1 (Window_SetRestoredRect 1 3 4 5 1 (Window_SetBorder 1 True fresh)) =
     (3, 4, 12, 2) \<and>
   (case Window_GetRect 1 (winMgr_SetState 1 Minimized (Window_SetBorder 1 True fresh)) of
      (x', y', width', height') \<Rightarrow> 12 \<le>s width' \<and> 2 \<le>s height') \<and>
   border (windows demo 1) \<and> Maximized \<noteq> state (windows demo 1) \<and>
   desktop (windows demo 1) \<noteq> None \<and>
   (case Window_GetRect 1 (winMgr_SetState 1 Maximized demo) of
      (x', y', width', height') \<Rightarrow> 12 \<le>s width' \<and> 2 \<le>s height')"
proof -
  have b: "border (windows (Window_SetBorder 1 True fresh) 1)"
    and st: "state (windows (Window_SetBorder 1 True fresh) 1) = Restored"
    and d: "desktop (windows (Window_SetBorder 1 True fresh) 1) = None"
    by (simp_all add: Window_SetBorder_def Let_def windows_notify_resized
        windows_layout_client windows_upd_win fresh_def NewWindow_def)
  have n: "(5::go_int) <s 12" "(1::go_int) <s 2"
    by (simp_all add: word_sless_alt)
  have b': "border (windows demo 1)" and st': "Maximized \<noteq> state (windows demo 1)"
    and d': "desktop (windows demo 1) \<noteq> None"
    using demo_window_1 by simp_all
  from bordered_geometry_minimum [OF b, of 3 4 5 1 Minimized] b st n
  have first: "Window_GetRect 1 (Window_SetRect 1 3 4 5 1 (Window_SetBorder 1 True fresh)) =
      (3, 4, 12, 2) \<and>
    Window_GetRestoredRect 1 (Window_SetRestoredRect 1 3 4 5 1 (Window_SetBorder 1 True fresh)) =
      (3, 4, 12, 2) \<and>
    Window_GetRect 1 (Window_SetRestoredRect 1 3 4 5 1 (Window_SetBorder 1 True fresh)) =
      (3, 4, 12, 2) \<and>
    (case Window_GetRect 1 (winMgr_SetState 1 Minimized (Window_SetBorder 1 True fresh)) of
      (x', y', width', height') \<Rightarrow> 12 \<le>s width' \<and> 2 \<le>s height')"
    by (simp split: prod.splits)
  from bordered_geometry_minimum [OF b', where st = Maximized] st' d'
  have second: "(case Window_GetRect 1 (winMgr_SetState 1 Maximized demo) of
      (x', y', width', height') \<Rightarrow> 12 \<le>s width' \<and> 2 \<le>s height')"
    by simp
  from b st first second b' st' d' show ?thesis
    by simp
qed

section \<open>The restored rectangle\<close>

lemma SetState_not_Restored:
  assumes "st \<noteq> Restored"
  shows "Window_GetRestoredRect win (Window_SetState win st s) = Window_GetRestoredRect win s"
    and "border (windows (Window_SetState win st s) win) = border (windows s win)"
    and "desktop (windows (Window_SetState win st s) win) = desktop (windows s win)"
    and "state (windows (Window_SetState win st s) win) = st"
    and "desktop (windows s win) = None \<Longrightarrow>
           Window_GetRect win (Window_SetState win st s) = Window_GetRect win s"
  using assms
  by (auto simp: Window_SetState_def winMgr_SetState_def Let_def windows_SetRect
      track_restored_def windows_upd_win Window_GetRestoredRect_def Window_GetRect_def
      split: option.splits WindowState.splits prod.splits)

lemma SetState_seq_keeps:
  assumes "set sts \<subseteq> {Minimized, Maximized}"
  shows "Window_GetRestoredRect win (fold (Window_SetState win) sts s) =
           Window_GetRestoredRect win s \<and>
         border (windows (fold (Window_SetState win) sts s) win) = border (windows s win) \<and>
         desktop (windows (fold (Window_SetState win) sts s) win) = desktop (windows s win) \<and>
         (sts \<noteq> [] \<longrightarrow> state (windows (fold (Window_SetState win) sts s) win) \<noteq> Restored) \<and>
         (desktop (windows s win) = None \<longrightarrow>
            Window_GetRect win (fold (Window_SetState win) sts s) = Window_GetRect win s)"
  using assms
proof (induction sts arbitrary: s)
  case Nil
  show ?case by simp
next
  case (Cons st sts)
  then have st: "st \<noteq> Restored" and sts: "set sts \<subseteq> {Minimized, Maximized}"
    by auto
  note step = SetState_not_Restored [OF st, where win = win and s = s]
  note ih = Cons.IH [OF sts, where s = "Window_SetState win st s"]
  show ?case
  proof (cases "sts = []")
    case True
    with step st show ?thesis by simp
  next
    case False
    with step ih st show ?thesis by simp
  qed
qed

lemma SetState_Restored_applies:
  assumes "state (windows s win) \<noteq> Restored" and "desktop (windows s win) = Some d"
  shows "Window_GetRect win (Window_SetState win Restored s) =
           (rx (windows s win), ry (windows s win),
            bound_width (border (windows s win)) (rw (windows s win)),
            bound_height (border (windows s win)) (rh (windows s win)))"
    and "Window_GetRestoredRect win (Window_SetState win Restored s) =
           Window_GetRect win (Window_SetState win Restored s)"
    and "state (windows (Window_SetState win Restored s) win) = Restored"
  using assms
  by (auto simp: Window_SetState_def winMgr_SetState_def Let_def GetRect_SetRect
      GetRestoredRect_SetRect state_SetRect windows_upd_win)

lemma SetState_Restored_detached:
  assumes "desktop (windows s win) = None"
  shows "Window_GetRect win (Window_SetState win Restored s) = Window_GetRect win s"
    and "Window_GetRestoredRect win (Window_SetState win Restored s) = Window_GetRestoredRect win s"
    and "state (windows (Window_SetState win Restored s) win) = Restored"
  using assms
  by (auto simp: Window_SetState_def Window_GetRect_def Window_GetRestoredRect_def windows_upd_win)

lemma SetState_Restored_same:
  assumes "state (windows s win) = Restored"
  shows "Window_GetRect win (Window_SetState win Restored s) = Window_GetRect win s"
    and "Window_GetRestoredRect win (Window_SetState win Restored s) = Window_GetRestoredRect win s"
    and "state (windows (Window_SetState win Restored s) win) = Restored"
  using assms
  by (auto simp: Window_SetState_def winMgr_SetState_def Window_GetRect_def Window_GetRestoredRect_def windows_upd_win
      split: option.splits)

text \<open>
  Claim C2. A rectangle set while the window is restored is its restored rectangle. Any
  sequence of transitions to \<open>Minimized\<close> and \<open>Maximized\<close> after that leaves the
  restored rectangle as it is, and setting the state back to \<open>Restored\<close> makes
  exactly that rectangle the geometry of the window again, attached or not.
\<close>

theorem restored_rect_survives_excursions:
  assumes "state (windows s win) = Restored" and "set sts \<subseteq> {Minimized, Maximized}"
  shows
    "(let s1 = Window_SetRect win x y width height s;
          s2 = fold (Window_SetState win) sts s1;
          s3 = Window_SetState win Restored s2
      in Window_GetRestoredRect win s1 = Window_GetRect win s1 \<and>
         Window_GetRestoredRect win s2 = Window_GetRect win s1 \<and>
         Window_GetRect win s3 = Window_GetRect win s1 \<and>
         Window_GetRestoredRect win s3 = Window_GetRect win s1 \<and>
         Window_GetState win s3 = Restored)"
proof -
  define s1 where "s1 = Window_SetRect win x y width height s"
  define s2 where "s2 = fold (Window_SetState win) sts s1"
  define b where "b = border (windows s win)"
  have r1: "Window_GetRect win s1 = (x, y, bound_width b width, bound_height b height)"
    by (simp add: s1_def b_def GetRect_SetRect)
  have rr1: "Window_GetRestoredRect win s1 = Window_GetRect win s1"
    using assms(1) by (simp add: s1_def GetRect_SetRect GetRestoredRect_SetRect)
  have st1: "state (windows s1 win) = Restored"
    using assms(1) by (simp add: s1_def state_SetRect)
  have b1: "border (windows s1 win) = b"
    by (simp add: s1_def b_def border_SetRect)
  note keep = SetState_seq_keeps [OF assms(2), where win = win and s = s1, folded s2_def]
  from keep rr1 have rr2: "Window_GetRestoredRect win s2 = Window_GetRect win s1"
    by simp
  from keep b1 have b2: "border (windows s2 win) = b"
    by simp
  have fin: "Window_GetRect win (Window_SetState win Restored s2) = Window_GetRect win s1 \<and>
     Window_GetRestoredRect win (Window_SetState win Restored s2) = Window_GetRect win s1 \<and>
     state (windows (Window_SetState win Restored s2) win) = Restored"
  proof (cases "desktop (windows s2 win)")
    case None
    with keep have "Window_GetRect win s2 = Window_GetRect win s1"
      by simp
    with SetState_Restored_detached [OF None] rr2 show ?thesis
      by simp
  next
    case (Some d)
    show ?thesis
    proof (cases "state (windows s2 win) = Restored")
      case True
      with keep have "sts = []" by auto
      then have "s2 = s1" by (simp add: s2_def)
      with SetState_Restored_same [OF True] rr1 show ?thesis
        by simp
    next
      case False
      from rr2 r1 have "rx (windows s2 win) = x" "ry (windows s2 win) = y"
        "rw (windows s2 win) = bound_width b width" "rh (windows s2 win) = bound_height b height"
        by (simp_all add: Window_GetRestoredRect_def)
      with SetState_Restored_applies [OF False Some] b2 r1 show ?thesis
        by (simp add: bound_width_idem bound_height_idem)
    qed
  qed
  with rr1 rr2 show ?thesis
    by (simp add: Let_def s1_def s2_def Window_GetState_def)
qed

lemma demo_SetRect_1: "Window_GetRect 1 (Window_SetRect 1 10 10 20 10 demo) = (10, 10, 20, 10)"
  by (simp add: GetRect_SetRect bound_width_def bound_height_def word_sless_alt)

lemma demo_Maximized_1: "Window_GetRect 1 (Window_SetState 1 Maximized (Window_SetRect 1 10 10 20 10 demo)) = (0, 0, 80, 25)"
  by (simp add: demo_def demo_windows_def demo_eval Window_SetState_def winMgr_SetState_def
      Window_GetRect_def Box_GetInnerRect_def)

theorem restored_rect_survives_excursions_witness:
  "state (windows demo 1) = Restored \<and> set [Maximized] \<subseteq> {Minimized, Maximized} \<and>
   Window_GetRect 1 (Window_SetRect 1 10 10 20 10 demo) = (10, 10, 20, 10) \<and>
   Window_GetRect 1 (Window_SetState 1 Maximized (Window_SetRect 1 10 10 20 10 demo)) = (0, 0, 80, 25) \<and>
   Window_GetRestoredRect 1 (Window_SetState 1 Maximized (Window_SetRect 1 10 10 20 10 demo)) = (10, 10, 20, 10) \<and>
   Window_GetRect 1 (Window_SetState 1 Restored
      (Window_SetState 1 Maximized (Window_SetRect 1 10 10 20 10 demo))) = (10, 10, 20, 10)"
proof -
  have a: "set [Maximized] \<subseteq> {Minimized, Maximized}" by simp
  from restored_rect_survives_excursions [OF demo_state_1 a, of 10 10 20 10] demo_SetRect_1 demo_Maximized_1 demo_state_1
  show ?thesis by (simp add: Let_def)
qed

section \<open>The window stack\<close>

lemma range_find_None: "range_find i xs v = None \<longleftrightarrow> v \<notin> set xs"
  by (induction xs arbitrary: i) auto

lemma range_find_Some:
  "range_find i xs v = Some k \<Longrightarrow>
     \<exists>j. k = i + j \<and> j < length xs \<and> xs ! j = v \<and> v \<notin> set (take j xs)"
proof (induction xs arbitrary: i)
  case Nil
  then show ?case by simp
next
  case (Cons x xs)
  show ?case
  proof (cases "x = v")
    case True
    with Cons.prems show ?thesis by simp
  next
    case False
    with Cons.prems have "range_find (Suc i) xs v = Some k" by simp
    from Cons.IH [OF this] obtain j where
      j: "k = Suc i + j" "j < length xs" "xs ! j = v" "v \<notin> set (take j xs)"
      by blast
    with False have "k = i + Suc j \<and> Suc j < length (x # xs) \<and> (x # xs) ! Suc j = v \<and>
        v \<notin> set (take (Suc j) (x # xs))"
      by simp
    then show ?thesis by blast
  qed
qed

lemma range_find_first:
  assumes "range_find 0 xs v = Some j"
  shows "j < length xs" "xs ! j = v" "v \<notin> set (take j xs)"
  using range_find_Some [OF assms] by auto

lemma range_find_distinct:
  assumes "distinct xs" and "j < length xs"
  shows "range_find 0 xs (xs ! j) = Some j"
proof -
  from assms(2) have "xs ! j \<in> set xs" by simp
  then obtain k where k: "range_find 0 xs (xs ! j) = Some k"
    using range_find_None [of 0 xs "xs ! j"] by (cases "range_find 0 xs (xs ! j)") auto
  from range_find_first [OF k] assms have "k = j"
    by (simp add: nth_eq_iff_index_eq)
  with k show ?thesis by simp
qed

lemma take_drop_remove1:
  assumes "j < length xs" and "xs ! j = v" and "v \<notin> set (take j xs)"
  shows "take j xs @ drop (Suc j) xs = remove1 v xs"
proof -
  from assms(1,2) have "xs = take j xs @ v # drop (Suc j) xs"
    by (metis id_take_nth_drop)
  then have "remove1 v xs = remove1 v (take j xs @ v # drop (Suc j) xs)"
    by simp
  also from assms(3) have "\<dots> = take j xs @ drop (Suc j) xs"
    by (simp add: remove1_append)
  finally show ?thesis by simp
qed

lemma shift_down_eq:
  assumes "i < length xs"
  shows "shift_down i xs = take i xs @ drop (Suc i) xs @ [last xs]"
proof -
  from assms have "drop (length xs - Suc 0) xs = [last xs]"
    by (cases xs rule: rev_cases) auto
  with assms show ?thesis
    by (simp add: shift_down_def go_copy_def)
qed

lemma shift_down_butlast:
  assumes "i < length xs"
  shows "take (length (shift_down i xs) - 1) (shift_down i xs) = take i xs @ drop (Suc i) xs"
  using assms by (simp add: shift_down_eq)

lemma shift_down_set_last:
  assumes "i < length xs"
  shows "(shift_down i xs)[length xs - 1 := v] = take i xs @ drop (Suc i) xs @ [v]"
proof -
  define ys where "ys = take i xs @ drop (Suc i) xs"
  from assms have len: "length xs - 1 = length ys"
    by (simp add: ys_def)
  have "(ys @ [last xs])[length ys := v] = ys @ [v]"
    by (rule list_update_length)
  with assms len show ?thesis
    by (simp add: shift_down_eq ys_def)
qed

lemma wins_RemoveWindow:
  "wins (desktops (Desktop_RemoveWindow d win s) d) = remove1 win (wins (desktops s d))"
proof (cases "range_find 0 (wins (desktops s d)) win")
  case None
  then have "win \<notin> set (wins (desktops s d))"
    by (simp add: range_find_None)
  with None show ?thesis
    by (simp add: Desktop_RemoveWindow_def remove1_idem)
next
  case (Some i)
  note f = range_find_first [OF Some]
  from Some f(1) have "wins (desktops (Desktop_RemoveWindow d win s) d) =
      take i (wins (desktops s d)) @ drop (Suc i) (wins (desktops s d))"
    using shift_down_butlast [OF f(1)]
    by (simp add: Desktop_RemoveWindow_def Let_def upd_desk_def winMgr_Removed_def called_def)
  with take_drop_remove1 [OF f] show ?thesis by simp
qed

lemma RemoveWindow_absent:
  "win \<notin> set (wins (desktops s d)) \<Longrightarrow> Desktop_RemoveWindow d win s = s"
  using range_find_None [of 0 "wins (desktops s d)" win]
  by (simp add: Desktop_RemoveWindow_def)

lemma calls_RemoveWindow:
  "win \<in> set (wins (desktops s d)) \<Longrightarrow>
     calls (Desktop_RemoveWindow d win s) = calls s @ [Removed win]"
  using range_find_None [of 0 "wins (desktops s d)" win]
  by (auto simp: Desktop_RemoveWindow_def Let_def upd_desk_def winMgr_Removed_def called_def
      split: option.splits)

lemma windows_RemoveWindow: "windows (Desktop_RemoveWindow d win s) = windows s"
  by (simp add: Desktop_RemoveWindow_def Let_def upd_desk_def winMgr_Removed_def called_def
      split: option.splits)

lemma wins_BringToFront:
  assumes "desktop (windows s win) = Some d"
  shows "wins (desktops (Window_BringToFront win s) d) =
     (let ws = wins (desktops s d)
      in if win \<in> set ws \<and> last ws \<noteq> win then remove1 win ws @ [win] else ws)"
proof (cases "range_find 0 (wins (desktops s d)) win")
  case None
  then have "win \<notin> set (wins (desktops s d))"
    by (simp add: range_find_None)
  with None assms show ?thesis
    by (simp add: Window_BringToFront_def Let_def)
next
  case (Some i)
  note f = range_find_first [OF Some]
  from f have mem: "win \<in> set (wins (desktops s d))" and ne: "wins (desktops s d) \<noteq> []"
    by auto
  from ne have l: "wins (desktops s d) ! (length (wins (desktops s d)) - 1) = last (wins (desktops s d))"
    by (simp add: last_conv_nth)
  from ne have pos: "0 < length (wins (desktops s d))" by simp
  show ?thesis
    using assms Some mem l pos shift_down_set_last [OF f(1), of win] take_drop_remove1 [OF f]
    by (simp add: Window_BringToFront_def Let_def upd_desk_def)
qed

lemma BringToFront_already_front:
  assumes "desktop (windows s win) = Some d" and "wins (desktops s d) \<noteq> []"
    and "last (wins (desktops s d)) = win"
  shows "Window_BringToFront win s = s"
  using assms by (simp add: Window_BringToFront_def Let_def last_conv_nth)

lemma windows_BringToFront: "windows (Window_BringToFront win s) = windows s"
  by (simp add: Window_BringToFront_def Let_def upd_desk_def split: option.splits)

lemma filter_others_remove1: "filter (\<lambda>w. w \<noteq> v) (remove1 v xs) = filter (\<lambda>w. w \<noteq> v) xs"
  by (induction xs) auto

section \<open>Bringing a window to the front\<close>

text \<open>
  Claim C6. For a window on the stack of its desktop, \<open>BringToFront\<close> makes the window
  the top window; the stack afterwards is the old one when the window was its last entry
  already, and otherwise the old one with the window's first entry taken out and the
  window appended, so that the other windows keep their relative order and the stack its
  length. A second call changes nothing, and neither does a call on the top window.
\<close>

theorem BringToFront_topmost_stable_idempotent:
  assumes "desktop (windows s win) = Some d" and "win \<in> set (wins (desktops s d))"
  shows
    "(let ws = wins (desktops s d);
          s' = Window_BringToFront win s;
          ws' = wins (desktops s' d)
      in Desktop_TopWindow d s' = Some win \<and>
         ws' = (if last ws = win then ws else remove1 win ws @ [win]) \<and>
         filter (\<lambda>w. w \<noteq> win) ws' = filter (\<lambda>w. w \<noteq> win) ws \<and>
         length ws' = length ws \<and>
         Window_BringToFront win s' = s' \<and>
         (Desktop_TopWindow d s = Some win \<longrightarrow> s' = s))"
proof -
  define ws where "ws = wins (desktops s d)"
  define s' where "s' = Window_BringToFront win s"
  define ws' where "ws' = wins (desktops s' d)"
  from assms(2) have ne: "ws \<noteq> []" and mem: "win \<in> set ws"
    by (auto simp: ws_def)
  have eq: "ws' = (if last ws = win then ws else remove1 win ws @ [win])"
    using wins_BringToFront [OF assms(1)] mem
    by (simp add: ws'_def s'_def ws_def Let_def)
  from eq ne have ne': "ws' \<noteq> []" and last': "last ws' = win"
    by (auto split: if_splits)
  from ne' last' have top: "Desktop_TopWindow d s' = Some win"
    by (simp add: Desktop_TopWindow_def Let_def ws'_def last_conv_nth)
  from eq have flt: "filter (\<lambda>w. w \<noteq> win) ws' = filter (\<lambda>w. w \<noteq> win) ws"
    by (simp add: filter_others_remove1)
  from eq mem ne have len: "length ws' = length ws"
    by (cases ws) (auto simp: length_remove1)
  have d': "desktop (windows s' win) = Some d"
    using assms(1) by (simp add: s'_def windows_BringToFront)
  have idem: "Window_BringToFront win s' = s'"
    using BringToFront_already_front [OF d'] ne' last' by (simp add: ws'_def)
  have stable: "s' = s" if "Desktop_TopWindow d s = Some win"
  proof -
    from that ne have "last ws = win"
      by (simp add: Desktop_TopWindow_def Let_def ws_def last_conv_nth)
    with BringToFront_already_front [OF assms(1)] ne show ?thesis
      by (simp add: s'_def ws_def)
  qed
  from top eq flt len idem stable show ?thesis
    by (simp add: Let_def ws_def s'_def ws'_def)
qed

theorem BringToFront_topmost_stable_idempotent_witness:
  "desktop (windows demo 1) = Some 0 \<and> 1 \<in> set (wins (desktops demo 0)) \<and>
   Desktop_TopWindow 0 demo = Some 2 \<and>
   Desktop_TopWindow 0 (Window_BringToFront 1 demo) = Some 1 \<and>
   wins (desktops (Window_BringToFront 1 demo) 0) = [2, 1] \<and>
   Window_BringToFront 1 (Window_BringToFront 1 demo) = Window_BringToFront 1 demo \<and>
   desktop (windows demo 2) = Some 0 \<and> 2 \<in> set (wins (desktops demo 0)) \<and>
   Window_BringToFront 2 demo = demo"
proof -
  have m: "1 \<in> set (wins (desktops demo 0))" "2 \<in> set (wins (desktops demo 0))"
    by (simp_all add: demo_wins)
  have t: "Desktop_TopWindow 0 demo = Some 2"
    by (simp add: Desktop_TopWindow_def demo_wins)
  from BringToFront_topmost_stable_idempotent [OF demo_desktop(1) m(1)] m t demo_desktop(1)
  have a: "Desktop_TopWindow 0 (Window_BringToFront 1 demo) = Some 1 \<and>
      wins (desktops (Window_BringToFront 1 demo) 0) = [2, 1] \<and>
      Window_BringToFront 1 (Window_BringToFront 1 demo) = Window_BringToFront 1 demo"
    by (simp add: Let_def demo_wins)
  from BringToFront_topmost_stable_idempotent [OF demo_desktop(2) m(2)] t
  have b: "Window_BringToFront 2 demo = demo"
    by (simp add: Let_def)
  from a b m t demo_desktop show ?thesis
    by simp
qed

section \<open>Adding and removing windows\<close>

text \<open>
  Claim C10. \<open>AddWindow\<close> with a window whose desktop is already this desktop returns
  at once: the world is the same afterwards, so the stack and its order are unchanged
  and no hook of the manager has been called.
\<close>

theorem AddWindow_same_desktop_noop:
  assumes "Window_GetDesktop win s = Some d"
  shows "Desktop_AddWindow d win s = s \<and>
         wins (desktops (Desktop_AddWindow d win s) d) = wins (desktops s d) \<and>
         calls (Desktop_AddWindow d win s) = calls s"
  using assms by (simp add: Desktop_AddWindow_def Window_GetDesktop_def)

theorem AddWindow_same_desktop_noop_witness:
  "Window_GetDesktop 1 demo = Some 0 \<and> Desktop_AddWindow 0 1 demo = demo \<and>
   wins (desktops (Desktop_AddWindow 0 1 demo) 0) = [1, 2] \<and>
   calls (Desktop_AddWindow 0 1 demo) = [Added 1, Added 2]"
proof -
  have g: "Window_GetDesktop 1 demo = Some 0"
    using demo_desktop(1) by (simp add: Window_GetDesktop_def)
  have c: "calls demo = [Added 1, Added 2]"
    by (simp add: demo_def demo_windows_def demo_eval)
  from AddWindow_same_desktop_noop [OF g] g c show ?thesis
    by (simp add: demo_wins)
qed

text \<open>
  Claim C8. \<open>RemoveWindow\<close> takes the first entry that is the window out of the stack,
  keeps the order of the others and calls the manager's \<open>Removed\<close>
  (\<open>wins_RemoveWindow\<close>, \<open>calls_RemoveWindow\<close>); with a window that is not on the stack
  it changes nothing (\<open>RemoveWindow_absent\<close>). It never writes to a window
  (\<open>windows_RemoveWindow\<close>): the back-reference of the removed window still names the
  desktop. In the demo's world, after the first window is removed from the desktop,
  \<open>GetDesktop\<close> of that window is still the desktop, and adding the window to the
  desktop again is taken for the case of a window that is already there and does nothing.
\<close>

theorem RemoveWindow_keeps_back_reference:
  "wins (desktops (Desktop_RemoveWindow 0 1 demo) 0) = [2] \<and>
   calls (Desktop_RemoveWindow 0 1 demo) = calls demo @ [Removed 1] \<and>
   Window_GetDesktop 1 (Desktop_RemoveWindow 0 1 demo) = Some 0 \<and>
   Desktop_AddWindow 0 1 (Desktop_RemoveWindow 0 1 demo) = Desktop_RemoveWindow 0 1 demo \<and>
   1 \<notin> set (wins (desktops (Desktop_AddWindow 0 1 (Desktop_RemoveWindow 0 1 demo)) 0))"
proof -
  have w: "wins (desktops (Desktop_RemoveWindow 0 1 demo) 0) = [2]"
    by (simp add: wins_RemoveWindow demo_wins)
  have c: "calls (Desktop_RemoveWindow 0 1 demo) = calls demo @ [Removed 1]"
    by (simp add: calls_RemoveWindow demo_wins)
  have g: "Window_GetDesktop 1 (Desktop_RemoveWindow 0 1 demo) = Some 0"
    using demo_desktop(1) by (simp add: Window_GetDesktop_def windows_RemoveWindow)
  from g have a: "Desktop_AddWindow 0 1 (Desktop_RemoveWindow 0 1 demo) =
      Desktop_RemoveWindow 0 1 demo"
    by (simp add: Desktop_AddWindow_def Window_GetDesktop_def)
  from w c g a show ?thesis by simp
qed

section \<open>Well attached stacks\<close>

text \<open>
  The stacks stay well attached under the operations that change a stack or a
  back-reference, so the windows that \<open>NextWindow\<close> and \<open>PrevWindow\<close> meet are the
  windows of such stacks.
\<close>

lemma wins_SetRect: "wins (desktops (Window_SetRect win x y width height s) d) = wins (desktops s d)"
  by (simp add: desktops_SetRect)

lemma InitWindow_stack:
  "wins (desktops (Window_InitWindow win s) d) = wins (desktops s d)"
  "desktop (windows (Window_InitWindow win s) w) = desktop (windows s w)"
  by (simp_all add: Window_InitWindow_def Let_def desktops_layout_client
      windows_layout_client desktops_SetRect desktop_SetRect upd_desk_def
      split: option.splits prod.splits)

lemma AddWindow_stack:
  assumes "desktop (windows s win) \<noteq> Some d"
  shows "wins (desktops (Desktop_AddWindow d win s) d') =
           (if d' = d then wins (desktops s d) @ [win]
            else if desktop (windows s win) = Some d' then remove1 win (wins (desktops s d'))
            else wins (desktops s d'))"
    and "desktop (windows (Desktop_AddWindow d win s) w) =
           (if w = win then Some d else desktop (windows s w))"
proof -
  define s0 where "s0 = (case desktop (windows s win) of
      Some d' \<Rightarrow> Desktop_RemoveWindow d' win s | None \<Rightarrow> s)"
  have w0: "windows s0 = windows s"
    by (simp add: s0_def windows_RemoveWindow split: option.splits)
  have other: "wins (desktops (Desktop_RemoveWindow a win s) b) = wins (desktops s b)"
    if "a \<noteq> b" for a b
    using that
    by (simp add: Desktop_RemoveWindow_def Let_def upd_desk_def winMgr_Removed_def called_def
        split: option.splits)
  have d0: "wins (desktops s0 d') =
      (if desktop (windows s win) = Some d' then remove1 win (wins (desktops s d'))
       else wins (desktops s d'))" for d'
    by (auto simp: s0_def wins_RemoveWindow other split: option.splits)
  from assms have e: "Desktop_AddWindow d win s =
      winMgr_Added win
        (let s2 = upd_win win (\<lambda>w. w\<lparr>desktop := Some d\<rparr>)
                    (upd_desk d (\<lambda>x. x\<lparr>wins := wins x @ [win]\<rparr>) s0)
         in if init (desktops s2 d) then Window_InitWindow win s2 else s2)"
    by (simp add: Desktop_AddWindow_def Let_def s0_def)
  from assms d0 [of d] show "wins (desktops (Desktop_AddWindow d win s) d') =
           (if d' = d then wins (desktops s d) @ [win]
            else if desktop (windows s win) = Some d' then remove1 win (wins (desktops s d'))
            else wins (desktops s d'))"
    unfolding e using d0 [of d']
    by (simp add: Let_def winMgr_Added_def called_def InitWindow_stack upd_win_def upd_desk_def)
  show "desktop (windows (Desktop_AddWindow d win s) w) =
           (if w = win then Some d else desktop (windows s w))"
    unfolding e
    by (simp add: Let_def winMgr_Added_def called_def InitWindow_stack upd_win_def upd_desk_def w0)
qed

lemma AddWindow_well_attached:
  assumes "\<forall>d'. well_attached d' s"
  shows "well_attached d' (Desktop_AddWindow d win s)"
proof (cases "desktop (windows s win) = Some d")
  case True
  with assms show ?thesis
    by (simp add: Desktop_AddWindow_def)
next
  case False
  note st = AddWindow_stack [OF False]
  from assms have di: "\<forall>a. distinct (wins (desktops s a))"
    and at: "\<forall>a w. w \<in> set (wins (desktops s a)) \<longrightarrow> desktop (windows s w) = Some a"
    by (auto simp: well_attached_def)
  from False at have nd: "win \<notin> set (wins (desktops s d))"
    by auto
  have no: "win \<notin> set (wins (desktops s d'))" if "desktop (windows s win) \<noteq> Some d'"
    using that at by auto
  show ?thesis
    unfolding well_attached_def st
    using di at nd no by auto
qed

lemma RemoveWindow_well_attached:
  assumes "\<forall>d'. well_attached d' s"
  shows "well_attached d' (Desktop_RemoveWindow d win s)"
proof -
  have other: "wins (desktops (Desktop_RemoveWindow d win s) d') = wins (desktops s d')"
    if "d \<noteq> d'"
    using that
    by (simp add: Desktop_RemoveWindow_def Let_def upd_desk_def winMgr_Removed_def called_def
        split: option.splits)
  from assms have "well_attached d' s" by simp
  then show ?thesis
    unfolding well_attached_def windows_RemoveWindow
    using other wins_RemoveWindow [of d win s]
    by (cases "d = d'") auto
qed

lemma BringToFront_well_attached:
  assumes "\<forall>d'. well_attached d' s"
  shows "well_attached d' (Window_BringToFront win s)"
proof (cases "desktop (windows s win)")
  case None
  with assms show ?thesis
    by (simp add: Window_BringToFront_def)
next
  case (Some d)
  have other: "wins (desktops (Window_BringToFront win s) d') = wins (desktops s d')"
    if "d \<noteq> d'"
    using that Some
    by (simp add: Window_BringToFront_def Let_def upd_desk_def split: option.splits)
  from assms have "well_attached d' s" by simp
  then show ?thesis
    unfolding well_attached_def windows_BringToFront
    using other wins_BringToFront [OF Some]
    by (cases "d = d'") (auto simp: Let_def)
qed

lemma fresh_well_attached: "well_attached d fresh"
  by (simp add: well_attached_def fresh_def NewDesktop_def)

section \<open>Next and previous window\<close>

lemma NextWindow_nth:
  assumes "well_attached d s" and "i < length (wins (desktops s d))"
    and "2 \<le> length (wins (desktops s d))"
  shows "Window_NextWindow (wins (desktops s d) ! i) s =
           Some (wins (desktops s d) ! (if i = 0 then length (wins (desktops s d)) - 1 else i - 1))"
proof -
  from assms(1,2) have d: "desktop (windows s (wins (desktops s d) ! i)) = Some d"
    and dist: "distinct (wins (desktops s d))"
    by (auto simp: well_attached_def)
  from d range_find_distinct [OF dist assms(2)] assms(3) show ?thesis
    by (simp add: Window_NextWindow_def Let_def)
qed

lemma PrevWindow_nth:
  assumes "well_attached d s" and "i < length (wins (desktops s d))"
    and "2 \<le> length (wins (desktops s d))"
  shows "Window_PrevWindow (wins (desktops s d) ! i) s =
           Some (wins (desktops s d) ! (if i = length (wins (desktops s d)) - 1 then 0 else i + 1))"
proof -
  from assms(1,2) have d: "desktop (windows s (wins (desktops s d) ! i)) = Some d"
    and dist: "distinct (wins (desktops s d))"
    by (auto simp: well_attached_def)
  from d range_find_distinct [OF dist assms(2)] assms(3) show ?thesis
    by (simp add: Window_PrevWindow_def Let_def)
qed

lemma follow_Next_nth:
  assumes "well_attached d s" and "2 \<le> length (wins (desktops s d))"
  shows "i < length (wins (desktops s d)) \<Longrightarrow> k \<le> length (wins (desktops s d)) \<Longrightarrow>
         follow Window_NextWindow k (wins (desktops s d) ! i) s =
           Some (wins (desktops s d) !
             (if k \<le> i then i - k else i + length (wins (desktops s d)) - k))"
proof (induction k arbitrary: i)
  case 0
  then show ?case by simp
next
  case (Suc k)
  define n where "n = length (wins (desktops s d))"
  define i' where "i' = (if i = 0 then n - 1 else i - 1)"
  from Suc.prems assms(2) have i': "i' < n" and k: "k \<le> n"
    by (auto simp: i'_def n_def)
  from NextWindow_nth [OF assms(1) Suc.prems(1) assms(2)]
  have "follow Window_NextWindow (Suc k) (wins (desktops s d) ! i) s =
      follow Window_NextWindow k (wins (desktops s d) ! i') s"
    by (simp add: i'_def n_def)
  also from Suc.IH [of i'] i' k have "\<dots> =
      Some (wins (desktops s d) ! (if k \<le> i' then i' - k else i' + n - k))"
    by (simp add: n_def)
  also from Suc.prems have "(if k \<le> i' then i' - k else i' + n - k) =
      (if Suc k \<le> i then i - Suc k else i + n - Suc k)"
    by (auto simp: i'_def n_def)
  finally show ?case by (simp add: n_def)
qed

lemma follow_Prev_nth:
  assumes "well_attached d s" and "2 \<le> length (wins (desktops s d))"
  shows "i < length (wins (desktops s d)) \<Longrightarrow> k \<le> length (wins (desktops s d)) \<Longrightarrow>
         follow Window_PrevWindow k (wins (desktops s d) ! i) s =
           Some (wins (desktops s d) !
             (if i + k < length (wins (desktops s d)) then i + k
              else i + k - length (wins (desktops s d))))"
proof (induction k arbitrary: i)
  case 0
  then show ?case by simp
next
  case (Suc k)
  define n where "n = length (wins (desktops s d))"
  define i' where "i' = (if i = n - 1 then 0 else i + 1)"
  from Suc.prems assms(2) have i': "i' < n" and k: "k \<le> n"
    by (auto simp: i'_def n_def)
  from PrevWindow_nth [OF assms(1) Suc.prems(1) assms(2)]
  have "follow Window_PrevWindow (Suc k) (wins (desktops s d) ! i) s =
      follow Window_PrevWindow k (wins (desktops s d) ! i') s"
    by (simp add: i'_def n_def)
  also from Suc.IH [of i'] i' k have "\<dots> =
      Some (wins (desktops s d) ! (if i' + k < n then i' + k else i' + k - n))"
    by (simp add: n_def)
  also from Suc.prems have "(if i' + k < n then i' + k else i' + k - n) =
      (if i + Suc k < n then i + Suc k else i + Suc k - n)"
    by (auto simp: i'_def n_def)
  finally show ?case by (simp add: n_def)
qed

lemma Next_Prev_nth:
  assumes "well_attached d s" and "i < length (wins (desktops s d))"
    and "2 \<le> length (wins (desktops s d))"
  shows "Option.bind (Window_NextWindow (wins (desktops s d) ! i) s) (\<lambda>w. Window_PrevWindow w s) =
           Some (wins (desktops s d) ! i)"
    and "Option.bind (Window_PrevWindow (wins (desktops s d) ! i) s) (\<lambda>w. Window_NextWindow w s) =
           Some (wins (desktops s d) ! i)"
proof -
  define n where "n = length (wins (desktops s d))"
  define a where "a = (if i = 0 then n - 1 else i - 1)"
  define b where "b = (if i = n - 1 then 0 else i + 1)"
  from assms have a: "a < n" "(if a = n - 1 then 0 else a + 1) = i"
    and b: "b < n" "(if b = 0 then n - 1 else b - 1) = i"
    by (auto simp: a_def b_def n_def)
  have nx: "Window_NextWindow (wins (desktops s d) ! i) s = Some (wins (desktops s d) ! a)"
    using NextWindow_nth [OF assms] by (simp only: a_def n_def)
  have pv: "Window_PrevWindow (wins (desktops s d) ! i) s = Some (wins (desktops s d) ! b)"
    using PrevWindow_nth [OF assms] by (simp only: b_def n_def)
  have pa: "Window_PrevWindow (wins (desktops s d) ! a) s = Some (wins (desktops s d) ! i)"
    using PrevWindow_nth [OF assms(1) _ assms(3), of a] a unfolding n_def
    by (auto split: if_splits)
  have nb: "Window_NextWindow (wins (desktops s d) ! b) s = Some (wins (desktops s d) ! i)"
    using NextWindow_nth [OF assms(1) _ assms(3), of b] b unfolding n_def
    by (auto split: if_splits)
  show "Option.bind (Window_NextWindow (wins (desktops s d) ! i) s) (\<lambda>w. Window_PrevWindow w s) =
           Some (wins (desktops s d) ! i)"
    by (simp add: nx pa)
  show "Option.bind (Window_PrevWindow (wins (desktops s d) ! i) s) (\<lambda>w. Window_NextWindow w s) =
           Some (wins (desktops s d) ! i)"
    by (simp add: pv nb)
qed

lemma follow_cycle_nth:
  assumes "well_attached d s" and "i < length (wins (desktops s d))"
    and "2 \<le> length (wins (desktops s d))"
  shows "follow Window_NextWindow (length (wins (desktops s d))) (wins (desktops s d) ! i) s =
           Some (wins (desktops s d) ! i)"
    and "follow Window_PrevWindow (length (wins (desktops s d))) (wins (desktops s d) ! i) s =
           Some (wins (desktops s d) ! i)"
    and "0 < k \<Longrightarrow> k < length (wins (desktops s d)) \<Longrightarrow>
           follow Window_NextWindow k (wins (desktops s d) ! i) s \<noteq> Some (wins (desktops s d) ! i)"
    and "0 < k \<Longrightarrow> k < length (wins (desktops s d)) \<Longrightarrow>
           follow Window_PrevWindow k (wins (desktops s d) ! i) s \<noteq> Some (wins (desktops s d) ! i)"
    and "j < length (wins (desktops s d)) \<Longrightarrow>
           \<exists>k < length (wins (desktops s d)).
             follow Window_NextWindow k (wins (desktops s d) ! i) s = Some (wins (desktops s d) ! j)"
    and "j < length (wins (desktops s d)) \<Longrightarrow>
           \<exists>k < length (wins (desktops s d)).
             follow Window_PrevWindow k (wins (desktops s d) ! i) s = Some (wins (desktops s d) ! j)"
proof -
  define ws where "ws = wins (desktops s d)"
  define n where "n = length ws"
  from assms(1) have dist: "distinct ws"
    by (simp add: well_attached_def ws_def)
  have i: "i < n" using assms(2) by (simp add: n_def ws_def)
  have nx: "follow Window_NextWindow k (ws ! i) s = Some (ws ! (if k \<le> i then i - k else i + n - k))"
    if "k \<le> n" for k
    using follow_Next_nth [OF assms(1,3) assms(2), of k] that by (simp add: ws_def n_def)
  have pv: "follow Window_PrevWindow k (ws ! i) s = Some (ws ! (if i + k < n then i + k else i + k - n))"
    if "k \<le> n" for k
    using follow_Prev_nth [OF assms(1,3) assms(2), of k] that by (simp add: ws_def n_def)
  from nx [of n] i show "follow Window_NextWindow (length (wins (desktops s d)))
      (wins (desktops s d) ! i) s = Some (wins (desktops s d) ! i)"
    by (simp add: ws_def n_def)
  from pv [of n] i show "follow Window_PrevWindow (length (wins (desktops s d)))
      (wins (desktops s d) ! i) s = Some (wins (desktops s d) ! i)"
    by (simp add: ws_def n_def)
  show "follow Window_NextWindow k (wins (desktops s d) ! i) s \<noteq> Some (wins (desktops s d) ! i)"
    if "0 < k" "k < length (wins (desktops s d))"
  proof -
    from that i have "(if k \<le> i then i - k else i + n - k) \<noteq> i"
      and "(if k \<le> i then i - k else i + n - k) < n"
      by (auto simp: n_def ws_def)
    with dist i have "ws ! (if k \<le> i then i - k else i + n - k) \<noteq> ws ! i"
      by (simp add: nth_eq_iff_index_eq n_def)
    with nx [of k] that show ?thesis
      by (simp add: ws_def n_def)
  qed
  show "follow Window_PrevWindow k (wins (desktops s d) ! i) s \<noteq> Some (wins (desktops s d) ! i)"
    if "0 < k" "k < length (wins (desktops s d))"
  proof -
    from that i have "(if i + k < n then i + k else i + k - n) \<noteq> i"
      and "(if i + k < n then i + k else i + k - n) < n"
      by (auto simp: n_def ws_def)
    with dist i have "ws ! (if i + k < n then i + k else i + k - n) \<noteq> ws ! i"
      by (simp add: nth_eq_iff_index_eq n_def)
    with pv [of k] that show ?thesis
      by (simp add: ws_def n_def)
  qed
  show "\<exists>k < length (wins (desktops s d)).
      follow Window_NextWindow k (wins (desktops s d) ! i) s = Some (wins (desktops s d) ! j)"
    if "j < length (wins (desktops s d))"
  proof -
    define k where "k = (if j \<le> i then i - j else i + n - j)"
    from that i have k: "k < n" "(if k \<le> i then i - k else i + n - k) = j"
      by (auto simp: k_def n_def ws_def)
    with nx [of k] have "follow Window_NextWindow k (ws ! i) s = Some (ws ! j)"
      by simp
    with k(1) show ?thesis
      unfolding ws_def n_def by blast
  qed
  show "\<exists>k < length (wins (desktops s d)).
      follow Window_PrevWindow k (wins (desktops s d) ! i) s = Some (wins (desktops s d) ! j)"
    if "j < length (wins (desktops s d))"
  proof -
    define k where "k = (if i \<le> j then j - i else j + n - i)"
    from that i have k: "k < n" "(if i + k < n then i + k else i + k - n) = j"
      by (auto simp: k_def n_def ws_def)
    with pv [of k] have "follow Window_PrevWindow k (ws ! i) s = Some (ws ! j)"
      by simp
    with k(1) show ?thesis
      unfolding ws_def n_def by blast
  qed
qed

lemma NextWindow_PrevWindow_none:
  "desktop (windows s win) = None \<Longrightarrow> Window_NextWindow win s = None"
  "desktop (windows s win) = None \<Longrightarrow> Window_PrevWindow win s = None"
  "desktop (windows s win) = Some d \<Longrightarrow> length (wins (desktops s d)) \<le> 1 \<Longrightarrow>
     Window_NextWindow win s = None"
  "desktop (windows s win) = Some d \<Longrightarrow> length (wins (desktops s d)) \<le> 1 \<Longrightarrow>
     Window_PrevWindow win s = None"
  by (simp_all add: Window_NextWindow_def Window_PrevWindow_def)

text \<open>
  Claim C7. On a well attached stack of at least two windows, \<open>NextWindow\<close> followed by
  \<open>PrevWindow\<close>, and \<open>PrevWindow\<close> followed by \<open>NextWindow\<close>, lead from a window of
  the stack back to it. The windows of the stack form one cycle as long as the stack: as
  many steps as the stack has windows lead back to the start, fewer steps (and more than
  none) lead elsewhere, and every window of the stack is reached in fewer steps than the
  stack has windows. Both functions return nil for a window without a desktop and for a
  window whose desktop has at most one window.
\<close>

theorem NextWindow_PrevWindow_cycle:
  "(well_attached d s \<and> win \<in> set (wins (desktops s d)) \<and> 2 \<le> length (wins (desktops s d)) \<longrightarrow>
      Option.bind (Window_NextWindow win s) (\<lambda>w. Window_PrevWindow w s) = Some win \<and>
      Option.bind (Window_PrevWindow win s) (\<lambda>w. Window_NextWindow w s) = Some win \<and>
      follow Window_NextWindow (length (wins (desktops s d))) win s = Some win \<and>
      follow Window_PrevWindow (length (wins (desktops s d))) win s = Some win \<and>
      (\<forall>k. 0 < k \<and> k < length (wins (desktops s d)) \<longrightarrow>
         follow Window_NextWindow k win s \<noteq> Some win \<and>
         follow Window_PrevWindow k win s \<noteq> Some win) \<and>
      (\<forall>w \<in> set (wins (desktops s d)).
         (\<exists>k < length (wins (desktops s d)). follow Window_NextWindow k win s = Some w) \<and>
         (\<exists>k < length (wins (desktops s d)). follow Window_PrevWindow k win s = Some w))) \<and>
   (Window_GetDesktop win s = None \<longrightarrow>
      Window_NextWindow win s = None \<and> Window_PrevWindow win s = None) \<and>
   (Window_GetDesktop win s = Some d \<and> length (wins (desktops s d)) \<le> 1 \<longrightarrow>
      Window_NextWindow win s = None \<and> Window_PrevWindow win s = None)"
proof -
  have cyc: "Option.bind (Window_NextWindow win s) (\<lambda>w. Window_PrevWindow w s) = Some win \<and>
      Option.bind (Window_PrevWindow win s) (\<lambda>w. Window_NextWindow w s) = Some win \<and>
      follow Window_NextWindow (length (wins (desktops s d))) win s = Some win \<and>
      follow Window_PrevWindow (length (wins (desktops s d))) win s = Some win \<and>
      (\<forall>k. 0 < k \<and> k < length (wins (desktops s d)) \<longrightarrow>
         follow Window_NextWindow k win s \<noteq> Some win \<and>
         follow Window_PrevWindow k win s \<noteq> Some win) \<and>
      (\<forall>w \<in> set (wins (desktops s d)).
         (\<exists>k < length (wins (desktops s d)). follow Window_NextWindow k win s = Some w) \<and>
         (\<exists>k < length (wins (desktops s d)). follow Window_PrevWindow k win s = Some w))"
    if wa: "well_attached d s" and mem: "win \<in> set (wins (desktops s d))"
      and two: "2 \<le> length (wins (desktops s d))"
  proof -
    from mem obtain i where i: "i < length (wins (desktops s d))" "wins (desktops s d) ! i = win"
      by (auto simp: in_set_conv_nth)
    note np = Next_Prev_nth [OF wa i(1) two]
    note fc = follow_cycle_nth [OF wa i(1) two]
    have reach: "(\<exists>k < length (wins (desktops s d)). follow Window_NextWindow k win s = Some w) \<and>
         (\<exists>k < length (wins (desktops s d)). follow Window_PrevWindow k win s = Some w)"
      if "w \<in> set (wins (desktops s d))" for w
    proof -
      from that obtain j where j: "j < length (wins (desktops s d))" "wins (desktops s d) ! j = w"
        by (auto simp: in_set_conv_nth)
      from fc(5) [OF j(1)] fc(6) [OF j(1)] show ?thesis
        by (simp only: i(2) j(2))
    qed
    from np fc(1,2) fc(3,4) reach show ?thesis
      unfolding i(2) by blast
  qed
  from cyc NextWindow_PrevWindow_none [of s win] NextWindow_PrevWindow_none(3,4) [of s win d]
  show ?thesis
    unfolding Window_GetDesktop_def by blast
qed

lemma demo_well_attached: "well_attached 0 demo"
  using demo_desktop by (simp add: well_attached_def demo_wins)

theorem NextWindow_PrevWindow_cycle_witness:
  "well_attached 0 demo \<and> 1 \<in> set (wins (desktops demo 0)) \<and>
   2 \<le> length (wins (desktops demo 0)) \<and>
   Window_NextWindow 1 demo = Some 2 \<and> Window_PrevWindow 2 demo = Some 1 \<and>
   Option.bind (Window_NextWindow 1 demo) (\<lambda>w. Window_PrevWindow w demo) = Some 1 \<and>
   follow Window_NextWindow 2 1 demo = Some 1 \<and>
   follow Window_NextWindow 1 1 demo \<noteq> Some 1 \<and>
   Window_GetDesktop 1 fresh = None \<and> Window_NextWindow 1 fresh = None \<and>
   Window_GetDesktop 1 (Desktop_AddWindow 0 1 fresh) = Some 0 \<and>
   length (wins (desktops (Desktop_AddWindow 0 1 fresh) 0)) \<le> 1 \<and>
   Window_PrevWindow 1 (Desktop_AddWindow 0 1 fresh) = None"
proof -
  have m: "1 \<in> set (wins (desktops demo 0))" "2 \<le> length (wins (desktops demo 0))"
    by (simp_all add: demo_wins)
  have n: "Window_NextWindow 1 demo = Some 2" "Window_PrevWindow 2 demo = Some 1"
    using demo_desktop by (simp_all add: Window_NextWindow_def Window_PrevWindow_def demo_wins)
  have f: "Window_GetDesktop 1 fresh = None"
    by (simp add: Window_GetDesktop_def fresh_def NewWindow_def)
  have a: "Window_GetDesktop 1 (Desktop_AddWindow 0 1 fresh) = Some 0"
    "length (wins (desktops (Desktop_AddWindow 0 1 fresh) 0)) \<le> 1"
    by (simp_all add: Window_GetDesktop_def demo_eval)
  have k: "(0::nat) < 1 \<and> (1::nat) < length (wins (desktops demo 0))"
    by (simp add: demo_wins)
  from NextWindow_PrevWindow_cycle [of 0 demo 1] demo_well_attached m k
  have "Option.bind (Window_NextWindow 1 demo) (\<lambda>w. Window_PrevWindow w demo) = Some 1 \<and>
      follow Window_NextWindow (length (wins (desktops demo 0))) 1 demo = Some 1 \<and>
      follow Window_NextWindow 1 1 demo \<noteq> Some 1"
    by blast
  moreover from NextWindow_PrevWindow_cycle [of 0 fresh 1] f
  have "Window_NextWindow 1 fresh = None"
    by blast
  moreover from NextWindow_PrevWindow_cycle [of 0 "Desktop_AddWindow 0 1 fresh" 1] a
  have "Window_PrevWindow 1 (Desktop_AddWindow 0 1 fresh) = None"
    by blast
  ultimately show ?thesis
    using demo_well_attached m n f a by (simp add: demo_wins numeral_2_eq_2)
qed

section \<open>Mouse handlers and the stack\<close>

lemma desktops_winMgr_SetState: "desktops (winMgr_SetState win st s) = desktops s"
  by (simp add: winMgr_SetState_def Let_def desktops_SetRect desktops_upd_win
      split: WindowState.splits option.splits prod.splits)

lemma desktops_SetState: "desktops (Window_SetState win st s) = desktops s"
  by (simp add: Window_SetState_def desktops_winMgr_SetState desktops_upd_win
      split: option.splits)

lemma desktops_mouse_down: "desktops (snd (mouse_down win event s)) = desktops s"
  by (simp add: mouse_down_def Let_def desktops_upd_win split: prod.splits)

lemma desktops_mouse_move: "desktops (snd (mouse_move win event s)) = desktops s"
  by (simp add: mouse_move_def Let_def desktops_SetRect split: prod.splits)

lemma desktops_double_click: "desktops (snd (double_click win event s)) = desktops s"
  by (simp add: double_click_def desktops_SetState split: WindowState.splits)

lemma desktops_DefaultMouseHandler:
  "desktops (snd (snd (winMgr_DefaultMouseHandler win action event s))) = desktops s"
proof -
  have a: "desktops s1 = desktops s" if "mouse_down win event s = (c, s1)" for c s1
    using desktops_mouse_down [of win event s] that by simp
  have b: "desktops s1 = desktops s" if "mouse_move win event s = (c, s1)" for c s1
    using desktops_mouse_move [of win event s] that by simp
  have c: "desktops s2 = desktops s1" if "double_click win event s1 = (c, s2)" for c s1 s2
    using desktops_double_click [of win event s1] that by simp
  show ?thesis
    by (auto simp: winMgr_DefaultMouseHandler_def desktops_upd_win split: prod.splits
        dest: a b c)
qed

lemma MouseHandler_not_consumed_desktops:
  assumes "Window_MouseHandler win action event s = (False, capture, s1)"
  shows "desktops s1 = desktops s"
proof -
  define act where "act \<longleftrightarrow> action = MouseLeftDown \<and>
      Box_InRect (box (windows s win)) (atX event) (atY event) \<and> autoActivate (windows s win)"
  have na: "\<not> act"
  proof
    assume act
    then have "fst (Window_MouseHandler win action event s)"
      by (auto simp: Window_MouseHandler_def Let_def act_def split: prod.splits option.splits)
    with assms show False by simp
  qed
  have m: "desktops (snd (snd (case desktop (windows s win) of
               Some d \<Rightarrow> winMgr_DefaultMouseHandler win action event s
             | None \<Rightarrow> (False, None, s)))) = desktops s"
    by (simp add: desktops_DefaultMouseHandler split: option.splits)
  from na have "desktops (snd (snd (Window_MouseHandler win action event s))) =
      desktops (snd (snd (case desktop (windows s win) of
               Some d \<Rightarrow> winMgr_DefaultMouseHandler win action event s
             | None \<Rightarrow> (False, None, s))))"
    by (auto simp: Window_MouseHandler_def Let_def act_def split: prod.splits option.splits)
  with m assms show ?thesis by simp
qed

lemma MouseHandler_loop_offer:
  "n \<le> length (wins (desktops s d)) \<Longrightarrow>
     MouseHandler_loop n d action event capture s =
       Some (offer_in_order (rev (take n (wins (desktops s d)))) action event capture s)"
proof (induction n arbitrary: capture s)
  case 0
  show ?case by simp
next
  case (Suc n)
  then have n: "n < length (wins (desktops s d))" by simp
  obtain c cap' s1 where
    h: "Window_MouseHandler (wins (desktops s d) ! n) action event s = (c, cap', s1)"
    by (cases "Window_MouseHandler (wins (desktops s d) ! n) action event s") auto
  from n have r: "rev (take (Suc n) (wins (desktops s d))) =
      wins (desktops s d) ! n # rev (take n (wins (desktops s d)))"
    by (simp add: take_Suc_conv_app_nth)
  show ?case
  proof (cases c)
    case True
    with h n r show ?thesis by simp
  next
    case False
    with h have "desktops s1 = desktops s"
      using MouseHandler_not_consumed_desktops by simp
    with Suc.IH [of s1 cap'] n have "MouseHandler_loop n d action event cap' s1 =
        Some (offer_in_order (rev (take n (wins (desktops s d)))) action event cap' s1)"
      by simp
    with h n r False show ?thesis by simp
  qed
qed

section \<open>Mouse routing of the desktop\<close>

lemma demo_click_top:
  "Window_MouseHandler 2 MouseLeftDown click demo =
     (True, None, called (SetFocus (PWindow 2)) demo)"
  by (simp add: Window_MouseHandler_def Let_def demo_window_2 Box_InRect_def click_def
      word_sless_alt word_sle_eq Window_Activate_def Window_BringToFront_def demo_desktop_0
      Window_HasFocus_def called_def winMgr_DefaultMouseHandler_def mouse_down_def
      in_caption_def Window_GetRect_def Box_GetRect_def Button1_def)

text \<open>
  Claim C3. A mouse event at a position outside the desktop's rectangle is not consumed,
  and the world is as before: no handler has run. At a position inside, the windows are
  offered the event in reverse stack order, the top window first; the first window whose
  handler reports the event consumed ends the propagation, and the client content of the
  desktop is offered the event only when no window has consumed it. In particular a top
  window that consumes the event is the only one to see it.
\<close>

theorem Desktop_MouseHandler_routing:
  "(\<not> Box_InRect (d_box (desktops s d)) (atX event) (atY event) \<longrightarrow>
      Desktop_MouseHandler d action event s = Some (False, None, s)) \<and>
   (Box_InRect (d_box (desktops s d)) (atX event) (atY event) \<longrightarrow>
      Desktop_MouseHandler d action event s =
        Some (windows_then_client d (rev (wins (desktops s d))) action event s)) \<and>
   (Box_InRect (d_box (desktops s d)) (atX event) (atY event) \<and> wins (desktops s d) \<noteq> [] \<and>
    fst (Window_MouseHandler (last (wins (desktops s d))) action event s) \<longrightarrow>
      Desktop_MouseHandler d action event s =
        Some (Window_MouseHandler (last (wins (desktops s d))) action event s))"
proof -
  have out: "Desktop_MouseHandler d action event s = Some (False, None, s)"
    if "\<not> Box_InRect (d_box (desktops s d)) (atX event) (atY event)"
    using that by (simp add: Desktop_MouseHandler_def)
  have loop: "MouseHandler_loop (length (wins (desktops s d))) d action event None s =
      Some (offer_in_order (rev (wins (desktops s d))) action event None s)"
    using MouseHandler_loop_offer [of "length (wins (desktops s d))" s d action event None]
    by simp
  have inside: "Desktop_MouseHandler d action event s =
      Some (windows_then_client d (rev (wins (desktops s d))) action event s)"
    if "Box_InRect (d_box (desktops s d)) (atX event) (atY event)"
    using that loop
    by (simp add: Desktop_MouseHandler_def windows_then_client_def split: prod.splits)
  have top: "windows_then_client d (rev (wins (desktops s d))) action event s =
      Window_MouseHandler (last (wins (desktops s d))) action event s"
    if ne: "wins (desktops s d) \<noteq> []"
      and c: "fst (Window_MouseHandler (last (wins (desktops s d))) action event s)"
  proof -
    from ne have r: "rev (wins (desktops s d)) =
        last (wins (desktops s d)) # rev (butlast (wins (desktops s d)))"
      by (cases "wins (desktops s d)" rule: rev_cases) auto
    from c obtain cap s1 where
      "Window_MouseHandler (last (wins (desktops s d))) action event s = (True, cap, s1)"
      by (cases "Window_MouseHandler (last (wins (desktops s d))) action event s") auto
    then show ?thesis
      unfolding windows_then_client_def r by simp
  qed
  from out inside top show ?thesis
    by simp
qed

theorem Desktop_MouseHandler_routing_witness:
  "Box_InRect (d_box (desktops demo 0)) (atX click) (atY click) \<and>
   wins (desktops demo 0) \<noteq> [] \<and>
   fst (Window_MouseHandler (last (wins (desktops demo 0))) MouseLeftDown click demo) \<and>
   Desktop_MouseHandler 0 MouseLeftDown click demo =
     Some (windows_then_client 0 [2, 1] MouseLeftDown click demo) \<and>
   Desktop_MouseHandler 0 MouseLeftDown click demo =
     Some (True, None, called (SetFocus (PWindow 2)) demo) \<and>
   \<not> Box_InRect (d_box (desktops demo 0)) (atX (click\<lparr>atX := 85\<rparr>)) (atY (click\<lparr>atX := 85\<rparr>)) \<and>
   Desktop_MouseHandler 0 MouseLeftDown (click\<lparr>atX := 85\<rparr>) demo = Some (False, None, demo)"
proof -
  have i: "Box_InRect (d_box (desktops demo 0)) (atX click) (atY click)"
    by (simp add: Box_InRect_def demo_desktop_0 click_def word_sless_alt word_sle_eq)
  have o: "\<not> Box_InRect (d_box (desktops demo 0)) (atX (click\<lparr>atX := 85\<rparr>)) (atY (click\<lparr>atX := 85\<rparr>))"
    by (simp add: Box_InRect_def demo_desktop_0 click_def word_sless_alt word_sle_eq)
  have l: "last (wins (desktops demo 0)) = 2" "wins (desktops demo 0) \<noteq> []"
    by (simp_all add: demo_desktop_0)
  note top = Desktop_MouseHandler_routing [of demo 0 click MouseLeftDown,
      THEN conjunct2, THEN conjunct2]
  note out = Desktop_MouseHandler_routing [of demo 0 "click\<lparr>atX := 85\<rparr>" MouseLeftDown,
      THEN conjunct1]
  from top i l demo_click_top
  have a: "Desktop_MouseHandler 0 MouseLeftDown click demo =
      Some (True, None, called (SetFocus (PWindow 2)) demo)"
    by simp
  from out o
  have b: "Desktop_MouseHandler 0 MouseLeftDown (click\<lparr>atX := 85\<rparr>) demo = Some (False, None, demo)"
    by simp
  from Desktop_MouseHandler_routing [of demo 0 click MouseLeftDown, THEN conjunct2,
      THEN conjunct1] i
  have c: "Desktop_MouseHandler 0 MouseLeftDown click demo =
      Some (windows_then_client 0 [2, 1] MouseLeftDown click demo)"
    by (simp add: demo_desktop_0)
  from a b c i o l demo_click_top show ?thesis
    by simp
qed

section \<open>Switching the border\<close>

lemma narrow_plain_window:
  "windows narrow_plain 1 = NewWindow\<lparr>box := \<lparr>box_x = 0, box_y = 0, box_width = 5,
       box_height = 1, box_border = False, box_hasFocus = False\<rparr>,
     desktop := Some 0, client := Some 7, rw := 5, rh := 1, clientFullSize := True\<rparr>"
  by (simp add: narrow_plain_def Window_SetClient_def Primitive_SetRect_def demo_eval)

lemma narrow_plain_calls: "calls narrow_plain = [Added 1]"
  by (simp add: narrow_plain_def Window_SetClient_def Primitive_SetRect_def demo_eval)

text \<open>
  Claim C9, as stated, fails: \<open>SetBorder\<close> does not apply the border minimum. The
  window of 5 by 1 cells is bordered after the call, and still 5 by 1.
\<close>

theorem SetBorder_keeps_narrow_rect:
  "border (windows (Window_SetBorder 1 True narrow_plain) 1) \<and>
   Window_GetRect 1 (Window_SetBorder 1 True narrow_plain) = (0, 0, 5, 1) \<and>
   \<not> 12 \<le>s box_width (box (windows (Window_SetBorder 1 True narrow_plain) 1)) \<and>
   \<not> 2 \<le>s box_height (box (windows (Window_SetBorder 1 True narrow_plain) 1))"
  using narrow_plain_window
  by (simp add: Window_SetBorder_def Let_def windows_notify_resized windows_layout_client
      windows_upd_win Window_GetRect_def Box_GetRect_def Box_SetBorder_def
      NewWindow_def word_sle_eq)

text \<open>
  Claim C9, amended. \<open>SetBorder\<close> stores the flag in the window and in its box and
  leaves the rectangle and the restored rectangle as they are; a full-size client is laid
  out in the inner rectangle of the box with the new flag, and the manager's \<open>Resized\<close>
  is called when the window is attached, and only then.
\<close>

theorem SetBorder_effect:
  "border (windows (Window_SetBorder win show s) win) = show \<and>
   box_border (box (windows (Window_SetBorder win show s) win)) = show \<and>
   Window_GetRect win (Window_SetBorder win show s) = Window_GetRect win s \<and>
   Window_GetRestoredRect win (Window_SetBorder win show s) = Window_GetRestoredRect win s \<and>
   (\<forall>p. client (windows s win) = Some p \<and> clientFullSize (windows s win) \<longrightarrow>
      c_rect (clients (Window_SetBorder win show s) p) =
        Box_GetInnerRect (Box_SetBorder show (box (windows s win)))) \<and>
   (desktop (windows s win) \<noteq> None \<longrightarrow>
      calls (Window_SetBorder win show s) = calls s @ [Resized win]) \<and>
   (desktop (windows s win) = None \<longrightarrow> calls (Window_SetBorder win show s) = calls s)"
proof -
  have w: "windows (Window_SetBorder win show s) =
      (windows s)(win := (windows s win)\<lparr>box := Box_SetBorder show (box (windows s win)),
         border := show\<rparr>)"
    by (simp add: Window_SetBorder_def Let_def windows_notify_resized windows_layout_client
        windows_upd_win)
  have c: "c_rect (clients (Window_SetBorder win show s) p) =
        Box_GetInnerRect (Box_SetBorder show (box (windows s win)))"
    if "client (windows s win) = Some p" "clientFullSize (windows s win)" for p
    using that
    by (simp add: Window_SetBorder_def Let_def notify_resized_def winMgr_Resized_def called_def
        layout_client_def Primitive_SetRect_def upd_win_def split: option.splits)
  have k: "calls (Window_SetBorder win show s) =
      (if desktop (windows s win) \<noteq> None then calls s @ [Resized win] else calls s)"
    by (simp add: Window_SetBorder_def Let_def notify_resized_def winMgr_Resized_def called_def
        layout_client_def Primitive_SetRect_def upd_win_def split: option.splits)
  from w c k show ?thesis
    by (simp add: Window_GetRect_def Window_GetRestoredRect_def Box_GetRect_def
        Box_SetBorder_def)
qed

theorem SetBorder_effect_witness:
  "client (windows narrow_plain 1) = Some 7 \<and> clientFullSize (windows narrow_plain 1) \<and>
   desktop (windows narrow_plain 1) \<noteq> None \<and>
   c_rect (clients (Window_SetBorder 1 True narrow_plain) 7) = (1, 1, 3, 0) \<and>
   calls (Window_SetBorder 1 True narrow_plain) = [Added 1, Resized 1] \<and>
   desktop (windows fresh 1) = None \<and>
   calls (Window_SetBorder 1 True fresh) = []"
proof -
  have a: "client (windows narrow_plain 1) = Some 7" "clientFullSize (windows narrow_plain 1)"
    "desktop (windows narrow_plain 1) \<noteq> None"
    using narrow_plain_window by (simp_all add: NewWindow_def)
  have f: "desktop (windows fresh 1) = None" "calls fresh = []"
    by (simp_all add: fresh_def NewWindow_def)
  have r: "Box_GetInnerRect (Box_SetBorder True (box (windows narrow_plain 1))) = (1, 1, 3, 0)"
    using narrow_plain_window
    by (simp add: NewWindow_def Box_SetBorder_def Box_GetInnerRect_def word_sless_alt)
  from SetBorder_effect [of 1 True narrow_plain] SetBorder_effect [of 1 True fresh] a f r
    narrow_plain_calls
  show ?thesis
    by simp
qed

section \<open>Dragging a window\<close>

lemma drag_move:
  assumes "moving (windows s win)"
  shows "winMgr_DefaultMouseHandler win MouseMove event s =
     (True, Some (PWindow win),
      Window_SetRect win (atX event - moveX (windows s win)) (atY event - moveY (windows s win))
        (box_width (box (windows s win))) (box_height (box (windows s win))) s)"
  using assms
  by (simp add: winMgr_DefaultMouseHandler_def mouse_move_def Window_GetRect_def
      Box_GetRect_def Let_def)

lemma moving_SetRect:
  "moving (windows (Window_SetRect win x y width height s) w) = moving (windows s w)"
  "moveX (windows (Window_SetRect win x y width height s) w) = moveX (windows s w)"
  "moveY (windows (Window_SetRect win x y width height s) w) = moveY (windows s w)"
  by (simp_all add: windows_SetRect track_restored_def Box_GetRect_def)

lemma release_drag:
  assumes "moving (windows s win) \<or> resizing (windows s win) \<noteq> 0"
  shows "winMgr_DefaultMouseHandler win MouseLeftUp event s =
     (True, None, upd_win win (\<lambda>v. v\<lparr>moving := False, resizing := 0\<rparr>) s)"
  using assms by (auto simp: winMgr_DefaultMouseHandler_def)

lemma move_without_drag:
  assumes "\<not> moving (windows s win)" and "resizing (windows s win) = 0"
  shows "winMgr_DefaultMouseHandler win MouseMove event s = (False, None, s)"
  using assms
  by (simp add: winMgr_DefaultMouseHandler_def mouse_move_def split: prod.splits)

lemma press_caption:
  assumes "Box_InRect (box (windows s win)) (atX event) (atY event)"
    and "in_caption win event s" and "buttons event = Button1"
  shows "winMgr_DefaultMouseHandler win MouseLeftDown event s =
     (True, Some (PWindow win),
      upd_win win (\<lambda>v. v\<lparr>moveX := atX event - box_x (box (windows s win)),
        moveY := atY event - box_y (box (windows s win)), moving := True\<rparr>) s)"
  using assms
  by (simp add: winMgr_DefaultMouseHandler_def mouse_down_def Window_GetRect_def
      Box_GetRect_def Let_def windows_upd_win)

lemma narrow_window:
  "windows narrow 1 = NewWindow\<lparr>box := \<lparr>box_x = 0, box_y = 0, box_width = 5,
       box_height = 1, box_border = True, box_hasFocus = False\<rparr>,
     desktop := Some 0, client := Some 7, rw := 5, rh := 1, clientFullSize := True,
     border := True\<rparr>"
  using narrow_plain_window
  by (simp add: narrow_def Window_SetBorder_def Let_def windows_notify_resized
      windows_layout_client windows_upd_win Box_SetBorder_def NewWindow_def)

lemma narrow_drag_window:
  "windows narrow_drag 1 = (windows narrow 1)\<lparr>moveX := 2, moveY := 0, moving := True\<rparr>"
proof -
  have "winMgr_DefaultMouseHandler 1 MouseLeftDown \<lparr>atX = 2, atY = 0, buttons = Button1\<rparr> narrow =
      (True, Some (PWindow 1),
       upd_win 1 (\<lambda>v. v\<lparr>moveX := atX \<lparr>atX = 2, atY = 0, buttons = Button1\<rparr> -
            box_x (box (windows narrow 1)),
          moveY := atY \<lparr>atX = 2, atY = 0, buttons = Button1\<rparr> - box_y (box (windows narrow 1)),
          moving := True\<rparr>) narrow)"
    using narrow_window
    by (intro press_caption)
      (simp_all add: Box_InRect_def in_caption_def Window_GetRect_def Box_GetRect_def
        NewWindow_def word_sless_alt word_sle_eq)
  then show ?thesis
    using narrow_window by (simp add: narrow_drag_def windows_upd_win NewWindow_def)
qed

text \<open>
  Claim C4, as stated, fails where it says that the width and the height are unchanged:
  the bordered window of 5 by 1 cells, dragged by its caption, is 12 by 2 after the first
  move of the mouse.
\<close>

theorem drag_widens_narrow_window:
  "moving (windows narrow_drag 1) \<and> Window_GetRect 1 narrow_drag = (0, 0, 5, 1) \<and>
   Window_GetRect 1 (snd (snd (winMgr_DefaultMouseHandler 1 MouseMove
       \<lparr>atX = 7, atY = 3, buttons = Button1\<rparr> narrow_drag))) = (5, 3, 12, 2)"
proof -
  have m: "moving (windows narrow_drag 1)"
    using narrow_drag_window by simp
  have w: "windows narrow_drag 1 = NewWindow\<lparr>box := \<lparr>box_x = 0, box_y = 0, box_width = 5,
       box_height = 1, box_border = True, box_hasFocus = False\<rparr>,
     desktop := Some 0, client := Some 7, rw := 5, rh := 1, clientFullSize := True,
     border := True, moveX := 2, moveY := 0, moving := True\<rparr>"
    using narrow_drag_window narrow_window by (simp add: NewWindow_def)
  have r: "Window_GetRect 1 narrow_drag = (0, 0, 5, 1)"
    using w by (simp add: Window_GetRect_def Box_GetRect_def NewWindow_def)
  have "Window_GetRect 1 (snd (snd (winMgr_DefaultMouseHandler 1 MouseMove
       \<lparr>atX = 7, atY = 3, buttons = Button1\<rparr> narrow_drag))) = (5, 3, 12, 2)"
    using w drag_move [OF m, of "\<lparr>atX = 7, atY = 3, buttons = Button1\<rparr>"]
    by (simp add: GetRect_SetRect NewWindow_def bound_width_def bound_height_def
        word_sless_alt)
  with m r show ?thesis by simp
qed

text \<open>
  Claim C4, amended. A press of the left button alone on the caption of a window starts
  a move and records the offset of the pointer from the window's top-left corner. While
  a move is active, each mouse-move event is consumed and captured by the window, and
  puts the top-left corner at the pointer position minus the recorded offset; the width
  and the height are passed on to \<open>SetRect\<close> as they are, so they are unchanged for a
  window within the border minimum, and a bordered window narrower than 12 or lower than
  2 gets the minimum. The release is consumed without capture and ends the move; mouse
  moves after it are not consumed and change nothing.
\<close>

theorem drag_move_repositions:
  "(Box_InRect (box (windows s win)) (atX down) (atY down) \<and> in_caption win down s \<and>
    buttons down = Button1 \<longrightarrow>
      (case winMgr_DefaultMouseHandler win MouseLeftDown down s of
         (consumed, capture, s1) \<Rightarrow>
           consumed \<and> capture = Some (PWindow win) \<and> moving (windows s1 win) \<and>
           moveX (windows s1 win) = atX down - box_x (box (windows s win)) \<and>
           moveY (windows s1 win) = atY down - box_y (box (windows s win)) \<and>
           Window_GetRect win s1 = Window_GetRect win s)) \<and>
   (moving (windows s win) \<longrightarrow>
      (case winMgr_DefaultMouseHandler win MouseMove event s of
         (consumed, capture, s1) \<Rightarrow>
           consumed \<and> capture = Some (PWindow win) \<and>
           Window_GetRect win s1 =
             (atX event - moveX (windows s win), atY event - moveY (windows s win),
              bound_width (border (windows s win)) (box_width (box (windows s win))),
              bound_height (border (windows s win)) (box_height (box (windows s win)))) \<and>
           ((border (windows s win) \<longrightarrow>
               12 \<le>s box_width (box (windows s win)) \<and> 2 \<le>s box_height (box (windows s win))) \<longrightarrow>
              Window_GetRect win s1 =
                (atX event - moveX (windows s win), atY event - moveY (windows s win),
                 box_width (box (windows s win)), box_height (box (windows s win)))) \<and>
           moving (windows s1 win) \<and>
           moveX (windows s1 win) = moveX (windows s win) \<and>
           moveY (windows s1 win) = moveY (windows s win))) \<and>
   (moving (windows s win) \<longrightarrow>
      (case winMgr_DefaultMouseHandler win MouseLeftUp up s of
         (consumed, capture, s1) \<Rightarrow>
           consumed \<and> capture = None \<and> \<not> moving (windows s1 win) \<and>
           resizing (windows s1 win) = 0 \<and> Window_GetRect win s1 = Window_GetRect win s \<and>
           winMgr_DefaultMouseHandler win MouseMove event s1 = (False, None, s1)))"
proof -
  have p: "(case winMgr_DefaultMouseHandler win MouseLeftDown down s of
         (consumed, capture, s1) \<Rightarrow>
           consumed \<and> capture = Some (PWindow win) \<and> moving (windows s1 win) \<and>
           moveX (windows s1 win) = atX down - box_x (box (windows s win)) \<and>
           moveY (windows s1 win) = atY down - box_y (box (windows s win)) \<and>
           Window_GetRect win s1 = Window_GetRect win s)"
    if "Box_InRect (box (windows s win)) (atX down) (atY down) \<and> in_caption win down s \<and>
      buttons down = Button1"
  proof -
    from that have "winMgr_DefaultMouseHandler win MouseLeftDown down s =
        (True, Some (PWindow win),
         upd_win win (\<lambda>v. v\<lparr>moveX := atX down - box_x (box (windows s win)),
           moveY := atY down - box_y (box (windows s win)), moving := True\<rparr>) s)"
      by (intro press_caption) simp_all
    then show ?thesis
      by (simp add: windows_upd_win Window_GetRect_def)
  qed
  have sz: "bound_width (border (windows s win)) (box_width (box (windows s win))) =
        box_width (box (windows s win)) \<and>
      bound_height (border (windows s win)) (box_height (box (windows s win))) =
        box_height (box (windows s win))"
    if "border (windows s win) \<longrightarrow>
        12 \<le>s box_width (box (windows s win)) \<and> 2 \<le>s box_height (box (windows s win))"
    using that by (auto simp: bound_width_def bound_height_def word_sless_alt word_sle_eq)
  have m: "(case winMgr_DefaultMouseHandler win MouseMove event s of
         (consumed, capture, s1) \<Rightarrow>
           consumed \<and> capture = Some (PWindow win) \<and>
           Window_GetRect win s1 =
             (atX event - moveX (windows s win), atY event - moveY (windows s win),
              bound_width (border (windows s win)) (box_width (box (windows s win))),
              bound_height (border (windows s win)) (box_height (box (windows s win)))) \<and>
           ((border (windows s win) \<longrightarrow>
               12 \<le>s box_width (box (windows s win)) \<and> 2 \<le>s box_height (box (windows s win))) \<longrightarrow>
              Window_GetRect win s1 =
                (atX event - moveX (windows s win), atY event - moveY (windows s win),
                 box_width (box (windows s win)), box_height (box (windows s win)))) \<and>
           moving (windows s1 win) \<and>
           moveX (windows s1 win) = moveX (windows s win) \<and>
           moveY (windows s1 win) = moveY (windows s win))"
    if mv: "moving (windows s win)"
    using mv sz by (simp add: drag_move [OF mv] GetRect_SetRect moving_SetRect)
  have u: "(case winMgr_DefaultMouseHandler win MouseLeftUp up s of
         (consumed, capture, s1) \<Rightarrow>
           consumed \<and> capture = None \<and> \<not> moving (windows s1 win) \<and>
           resizing (windows s1 win) = 0 \<and> Window_GetRect win s1 = Window_GetRect win s \<and>
           winMgr_DefaultMouseHandler win MouseMove event s1 = (False, None, s1))"
    if mv: "moving (windows s win)"
  proof -
    from mv have r: "winMgr_DefaultMouseHandler win MouseLeftUp up s =
        (True, None, upd_win win (\<lambda>v. v\<lparr>moving := False, resizing := 0\<rparr>) s)"
      by (simp add: release_drag)
    have "winMgr_DefaultMouseHandler win MouseMove event
        (upd_win win (\<lambda>v. v\<lparr>moving := False, resizing := 0\<rparr>) s) =
        (False, None, upd_win win (\<lambda>v. v\<lparr>moving := False, resizing := 0\<rparr>) s)"
      by (rule move_without_drag) (simp_all add: windows_upd_win)
    with r show ?thesis
      by (simp add: windows_upd_win Window_GetRect_def)
  qed
  show ?thesis
    using p m u by - (intro conjI impI; assumption)
qed

theorem drag_move_repositions_witness:
  "Box_InRect (box (windows demo 2)) (atX press) (atY press) \<and> in_caption 2 press demo \<and>
   buttons press = Button1 \<and> Window_GetRect 2 demo = (0, 0, 30, 15) \<and>
   moving (windows demo_pressed 2) \<and>
   moveX (windows demo_pressed 2) = 7 \<and> moveY (windows demo_pressed 2) = 0 \<and>
   Window_GetRect 2 demo_dragged = (5, 3, 30, 15) \<and>
   moving (windows demo_dragged 2) \<and>
   Window_GetRect 2 demo_released = (5, 3, 30, 15) \<and>
   \<not> moving (windows demo_released 2) \<and>
   winMgr_DefaultMouseHandler 2 MouseMove move_on demo_released = (False, None, demo_released)"
proof -
  have a: "Box_InRect (box (windows demo 2)) (atX press) (atY press)" "in_caption 2 press demo"
    "buttons press = Button1" "Window_GetRect 2 demo = (0, 0, 30, 15)"
    by (simp_all add: Box_InRect_def in_caption_def Window_GetRect_def Box_GetRect_def
        demo_window_2 press_def word_sless_alt word_sle_eq)
  from drag_move_repositions [of demo 2 press drag_to drag_to, THEN conjunct1] a
  have p: "moving (windows demo_pressed 2)" "moveX (windows demo_pressed 2) = 7"
    "moveY (windows demo_pressed 2) = 0" "Window_GetRect 2 demo_pressed = (0, 0, 30, 15)"
    by (simp_all add: demo_pressed_def demo_window_2 press_def split: prod.splits)
  from p(4) have sz: "box_width (box (windows demo_pressed 2)) = 30"
    "box_height (box (windows demo_pressed 2)) = 15"
    by (simp_all add: Window_GetRect_def Box_GetRect_def)
  from drag_move_repositions [of demo_pressed 2 press drag_to drag_to, THEN conjunct2,
      THEN conjunct1] p sz
  have d: "Window_GetRect 2 demo_dragged = (5, 3, 30, 15)" "moving (windows demo_dragged 2)"
    by (simp_all add: demo_dragged_def drag_to_def bound_width_def bound_height_def
        word_sless_alt split: prod.splits)
  from drag_move_repositions [of demo_dragged 2 press move_on drag_to, THEN conjunct2,
      THEN conjunct2] d
  have r: "Window_GetRect 2 demo_released = (5, 3, 30, 15)"
    "\<not> moving (windows demo_released 2)"
    "winMgr_DefaultMouseHandler 2 MouseMove move_on demo_released = (False, None, demo_released)"
    by (simp_all add: demo_released_def split: prod.splits)
  from a p d r show ?thesis by simp
qed

section \<open>Double-click on the caption\<close>

lemma flags_SetRect:
  "resizable (windows (Window_SetRect win x y width height s) w) = resizable (windows s w)"
  by (simp add: windows_SetRect track_restored_def Box_GetRect_def)

lemma flags_winMgr_SetState:
  "resizable (windows (winMgr_SetState win st s) w) = resizable (windows s w)"
  "desktop (windows (winMgr_SetState win st s) w) = desktop (windows s w)"
  by (simp_all add: winMgr_SetState_def Let_def flags_SetRect desktop_SetRect windows_upd_win
      split: WindowState.splits option.splits prod.splits)

lemma SetState_attached:
  assumes "desktop (windows s win) = Some d"
  shows "state (windows (Window_SetState win st s) win) = st"
    and "resizable (windows (Window_SetState win st s) win) = resizable (windows s win)"
    and "desktop (windows (Window_SetState win st s) win) = Some d"
    and "border (windows (Window_SetState win st s) win) = border (windows s win)"
proof -
  from assms have e: "Window_SetState win st s = winMgr_SetState win st s"
    by (simp add: Window_SetState_def)
  show "state (windows (Window_SetState win st s) win) = st"
    unfolding e
    by (simp add: winMgr_SetState_def Let_def state_SetRect windows_upd_win
        split: WindowState.splits option.splits prod.splits)
  from assms show "resizable (windows (Window_SetState win st s) win) = resizable (windows s win)"
    and "desktop (windows (Window_SetState win st s) win) = Some d"
    and "border (windows (Window_SetState win st s) win) = border (windows s win)"
    unfolding e by (simp_all add: flags_winMgr_SetState border_winMgr_SetState)
qed

lemma double_click_caption:
  assumes "resizable (windows s win)" and "desktop (windows s win) = Some d"
    and "Box_InRect (box (windows s win)) (atX event) (atY event)"
    and "in_caption win event s"
  shows "winMgr_DefaultMouseHandler win MouseLeftDoubleClick event s =
     (True, None, Window_SetState win (toggled (state (windows s win))) s)"
  using assms
  by (simp add: winMgr_DefaultMouseHandler_def double_click_def Window_GetState_def
      toggled_def split: WindowState.splits)

text \<open>
  Claim C5. A double-click that lands in the caption row of a resizable window on a
  desktop (the pointer is inside the window and, in the words of the code, the mouse is
  in the caption) is consumed and toggles the state: \<open>Minimized\<close> and \<open>Maximized\<close>
  become \<open>Restored\<close>, \<open>Restored\<close> becomes \<open>Maximized\<close>. A further double-click
  on the caption of the window as it then is follows the same rule, so that a restored
  window is restored again after the two, and a maximized one maximized.
\<close>

theorem double_click_toggles_state:
  assumes "resizable (windows s win)" and "desktop (windows s win) = Some d"
    and "Box_InRect (box (windows s win)) (atX event) (atY event)"
    and "in_caption win event s"
  shows
    "(case winMgr_DefaultMouseHandler win MouseLeftDoubleClick event s of
        (consumed, capture, s1) \<Rightarrow>
          consumed \<and>
          Window_GetState win s1 =
            (case Window_GetState win s of
               Restored \<Rightarrow> Maximized | Minimized \<Rightarrow> Restored | Maximized \<Rightarrow> Restored) \<and>
          (Box_InRect (box (windows s1 win)) (atX again) (atY again) \<and> in_caption win again s1 \<longrightarrow>
             (case winMgr_DefaultMouseHandler win MouseLeftDoubleClick again s1 of
                (consumed', capture', s2) \<Rightarrow>
                  consumed' \<and>
                  Window_GetState win s2 =
                    (case Window_GetState win s1 of
                       Restored \<Rightarrow> Maximized | Minimized \<Rightarrow> Restored | Maximized \<Rightarrow> Restored) \<and>
                  (Window_GetState win s = Restored \<longrightarrow> Window_GetState win s2 = Restored) \<and>
                  (Window_GetState win s = Maximized \<longrightarrow> Window_GetState win s2 = Maximized))))"
proof -
  define s1 where "s1 = Window_SetState win (toggled (state (windows s win))) s"
  have h1: "winMgr_DefaultMouseHandler win MouseLeftDoubleClick event s = (True, None, s1)"
    unfolding s1_def by (rule double_click_caption [OF assms])
  note a1 = SetState_attached [OF assms(2), where st = "toggled (state (windows s win))",
      folded s1_def]
  have st1: "Window_GetState win s1 = toggled (Window_GetState win s)"
    using a1(1) by (simp add: Window_GetState_def)
  have second: "(case winMgr_DefaultMouseHandler win MouseLeftDoubleClick again s1 of
                (consumed', capture', s2) \<Rightarrow>
                  consumed' \<and>
                  Window_GetState win s2 = toggled (Window_GetState win s1) \<and>
                  (Window_GetState win s = Restored \<longrightarrow> Window_GetState win s2 = Restored) \<and>
                  (Window_GetState win s = Maximized \<longrightarrow> Window_GetState win s2 = Maximized))"
    if "Box_InRect (box (windows s1 win)) (atX again) (atY again) \<and> in_caption win again s1"
  proof -
    from that a1 assms(1) have h2: "winMgr_DefaultMouseHandler win MouseLeftDoubleClick again s1 =
        (True, None, Window_SetState win (toggled (state (windows s1 win))) s1)"
      by (intro double_click_caption [where d = d]) simp_all
    from SetState_attached(1) [OF a1(3), where st = "toggled (state (windows s1 win))"]
    have "Window_GetState win (Window_SetState win (toggled (state (windows s1 win))) s1) =
        toggled (Window_GetState win s1)"
      by (simp add: Window_GetState_def)
    with h2 st1 show ?thesis
      by (auto simp: toggled_def)
  qed
  show ?thesis
    using h1 st1 second by (simp add: toggled_def)
qed

lemma demo_maximized_2:
  "windows (Window_SetState 2 Maximized demo) 2 =
     (windows demo 2)\<lparr>box := \<lparr>box_x = 0, box_y = 0, box_width = 80, box_height = 25,
        box_border = True, box_hasFocus = False\<rparr>, state := Maximized\<rparr>"
  by (simp add: Window_SetState_def winMgr_SetState_def Let_def demo_window_2 demo_desktop_0
      windows_SetRect windows_upd_win desktops_upd_win track_restored_def Box_GetInnerRect_def
      Box_SetRect_def bound_width_def bound_height_def word_sless_alt)

lemma demo_restored_2:
  "Window_GetRect 2 (Window_SetState 2 Restored (Window_SetState 2 Maximized demo)) =
     (0, 0, 30, 15)"
  "border (windows (Window_SetState 2 Restored (Window_SetState 2 Maximized demo)) 2)"
proof -
  have d: "desktop (windows (Window_SetState 2 Maximized demo) 2) = Some 0"
    and s: "state (windows (Window_SetState 2 Maximized demo) 2) \<noteq> Restored"
    by (simp_all add: demo_maximized_2 demo_window_2)
  from SetState_Restored_applies(1) [OF s d]
  show "Window_GetRect 2 (Window_SetState 2 Restored (Window_SetState 2 Maximized demo)) =
     (0, 0, 30, 15)"
    by (simp add: demo_maximized_2 demo_window_2 bound_width_def bound_height_def
        word_sless_alt)
  from SetState_attached(4) [OF d, of Restored]
  show "border (windows (Window_SetState 2 Restored (Window_SetState 2 Maximized demo)) 2)"
    by (simp add: demo_maximized_2 demo_window_2)
qed

theorem double_click_toggles_state_witness:
  "resizable (windows demo 2) \<and> desktop (windows demo 2) = Some 0 \<and>
   Box_InRect (box (windows demo 2)) (atX dclick) (atY dclick) \<and> in_caption 2 dclick demo \<and>
   Window_GetState 2 demo = Restored \<and>
   Window_GetState 2 (snd (snd (winMgr_DefaultMouseHandler 2 MouseLeftDoubleClick dclick demo))) =
     Maximized \<and>
   Window_GetState 2 (snd (snd (winMgr_DefaultMouseHandler 2 MouseLeftDoubleClick dclick_again
     (snd (snd (winMgr_DefaultMouseHandler 2 MouseLeftDoubleClick dclick demo)))))) = Restored \<and>
   Window_GetState 2 (Window_SetState 2 Maximized demo) = Maximized \<and>
   Window_GetState 2 (snd (snd (winMgr_DefaultMouseHandler 2 MouseLeftDoubleClick dclick
     (snd (snd (winMgr_DefaultMouseHandler 2 MouseLeftDoubleClick dclick_again
       (Window_SetState 2 Maximized demo))))))) = Maximized"
proof -
  have a: "resizable (windows demo 2)" "desktop (windows demo 2) = Some 0"
    "Box_InRect (box (windows demo 2)) (atX dclick) (atY dclick)" "in_caption 2 dclick demo"
    by (simp_all add: Box_InRect_def in_caption_def Window_GetRect_def Box_GetRect_def
        demo_window_2 dclick_def word_sless_alt word_sle_eq)
  have r: "Window_GetState 2 demo = Restored"
    by (simp add: Window_GetState_def demo_window_2)
  have h: "winMgr_DefaultMouseHandler 2 MouseLeftDoubleClick dclick demo =
      (True, None, Window_SetState 2 Maximized demo)"
    using double_click_caption [OF a] by (simp add: demo_window_2 toggled_def)
  have b: "resizable (windows (Window_SetState 2 Maximized demo) 2)"
    "desktop (windows (Window_SetState 2 Maximized demo) 2) = Some 0"
    "Box_InRect (box (windows (Window_SetState 2 Maximized demo) 2))
        (atX dclick_again) (atY dclick_again)"
    "in_caption 2 dclick_again (Window_SetState 2 Maximized demo)"
    by (simp_all add: Box_InRect_def in_caption_def Window_GetRect_def Box_GetRect_def
        demo_maximized_2 demo_window_2 dclick_again_def word_sless_alt word_sle_eq)
  have m: "Window_GetState 2 (Window_SetState 2 Maximized demo) = Maximized"
    by (simp add: Window_GetState_def demo_maximized_2)
  have h': "winMgr_DefaultMouseHandler 2 MouseLeftDoubleClick dclick_again
        (Window_SetState 2 Maximized demo) =
      (True, None, Window_SetState 2 Restored (Window_SetState 2 Maximized demo))"
    using double_click_caption [OF b] by (simp add: demo_maximized_2 toggled_def)
  have c: "Box_InRect (box (windows (Window_SetState 2 Restored
          (Window_SetState 2 Maximized demo)) 2)) (atX dclick) (atY dclick)"
    "in_caption 2 dclick (Window_SetState 2 Restored (Window_SetState 2 Maximized demo))"
    using demo_restored_2
    by (simp_all add: Box_InRect_def in_caption_def Window_GetRect_def Box_GetRect_def
        dclick_def word_sless_alt word_sle_eq)
  from double_click_toggles_state [OF a, of dclick_again] h b r
  have first: "Window_GetState 2 (snd (snd (winMgr_DefaultMouseHandler 2 MouseLeftDoubleClick
        dclick demo))) = Maximized \<and>
      Window_GetState 2 (snd (snd (winMgr_DefaultMouseHandler 2 MouseLeftDoubleClick dclick_again
        (snd (snd (winMgr_DefaultMouseHandler 2 MouseLeftDoubleClick dclick demo)))))) = Restored"
    by (simp split: prod.splits)
  from double_click_toggles_state [OF b, of dclick] h' c m
  have second: "Window_GetState 2 (snd (snd (winMgr_DefaultMouseHandler 2 MouseLeftDoubleClick
        dclick (snd (snd (winMgr_DefaultMouseHandler 2 MouseLeftDoubleClick dclick_again
          (Window_SetState 2 Maximized demo))))))) = Maximized"
    by (simp split: prod.splits)
  from a r m first second show ?thesis
    by simp
qed

end
